theory Spec2Isabelle
  imports Main
begin

section \<open>Python strings and slices\<close>

text \<open>
  Strings are \<^typ>\<open>string\<close>; a character stands for one code point below 256.
  \<open>str.strip()\<close> removes the white space of \<open>str.isspace\<close> at both ends,
  \<open>str.lower()\<close> maps the upper-case letters of ASCII and Latin-1 to lower case.
\<close>

definition py_isspace :: "char \<Rightarrow> bool" where
  "py_isspace c =
     (let n = (of_char c :: nat)
      in (9 \<le> n \<and> n \<le> 13) \<or> (28 \<le> n \<and> n \<le> 32) \<or> n = 133 \<or> n = 160)"

definition py_strip :: "string \<Rightarrow> string" where
  "py_strip s = rev (dropWhile py_isspace (rev (dropWhile py_isspace s)))"

definition py_lower_char :: "char \<Rightarrow> char" where
  "py_lower_char c =
     (let n = (of_char c :: nat)
      in if (65 \<le> n \<and> n \<le> 90) \<or> (192 \<le> n \<and> n \<le> 222 \<and> n \<noteq> 215)
         then char_of (n + 32) else c)"

definition py_lower :: "string \<Rightarrow> string" where
  "py_lower s = map py_lower_char s"

text \<open>\<open>range(0, n, step)\<close> and the slices \<open>xs[i:i+step]\<close> taken at its indices.\<close>

definition py_range_step :: "nat \<Rightarrow> nat \<Rightarrow> nat list" where
  "py_range_step n step = map (\<lambda>k. k * step) [0 ..< (n + step - 1) div step]"

definition slices :: "nat \<Rightarrow> 'a list \<Rightarrow> 'a list list" where
  "slices step xs = map (\<lambda>i. take step (drop i xs)) (py_range_step (length xs) step)"

section \<open>Regular expressions\<close>

text \<open>
  The patterns of the source are values of \<open>regex\<close>, matched the way Python's \<open>re\<close>
  module matches: by backtracking, a greedy repetition trying its longest run first, a
  lazy one its shortest, an alternation its left branch first. \<open>matches r st\<close> lists
  every way \<open>r\<close> can match at the state \<open>st\<close>, in the order the backtracking search
  tries them, so the head of the list is the match \<open>re\<close> reports. A state is the text
  before the position (reversed), the text from the position on, and the groups
  captured so far.
\<close>

datatype cclass =
    Lit char
  | NoneOf "char list"
  | Dot
  | Digit
  | Space

fun cmatch :: "cclass \<Rightarrow> char \<Rightarrow> bool" where
  "cmatch (Lit a) c = (c = a)"
| "cmatch (NoneOf as) c = (c \<notin> set as)"
| "cmatch Dot c = (c \<noteq> CHR 0x0A)"
| "cmatch Digit c = (c \<in> set ''0123456789'')"
| "cmatch Space c = py_isspace c"

datatype regex =
    Eps
  | One cclass
  | Cat regex regex
  | Alt regex regex
  | Plus cclass
  | Star cclass
  | LazyPlus cclass
  | Group nat regex
  | NotBehind char
  | Ahead regex
  | Eos

type_synonym mstate = "string \<times> string \<times> (nat \<times> string) list"

fun greedy_runs :: "cclass \<Rightarrow> (nat \<times> string) list \<Rightarrow> string \<Rightarrow> string \<Rightarrow> mstate list" where
  "greedy_runs c caps rb [] = [(rb, [], caps)]"
| "greedy_runs c caps rb (x # xs) =
     (if cmatch c x then greedy_runs c caps (x # rb) xs else []) @ [(rb, x # xs, caps)]"

fun lazy_runs :: "cclass \<Rightarrow> (nat \<times> string) list \<Rightarrow> string \<Rightarrow> string \<Rightarrow> mstate list" where
  "lazy_runs c caps rb [] = [(rb, [], caps)]"
| "lazy_runs c caps rb (x # xs) =
     (rb, x # xs, caps) # (if cmatch c x then lazy_runs c caps (x # rb) xs else [])"

fun step_char :: "cclass \<Rightarrow> mstate \<Rightarrow> mstate list" where
  "step_char c (rb, [], caps) = []"
| "step_char c (rb, x # xs, caps) = (if cmatch c x then [(x # rb, xs, caps)] else [])"

text \<open>\<open>$\<close> without the MULTILINE flag: the end, or just before a final newline.\<close>

definition at_eos :: "string \<Rightarrow> bool" where
  "at_eos rest = (rest = [] \<or> rest = [CHR 0x0A])"

definition capture :: "nat \<Rightarrow> string \<Rightarrow> mstate \<Rightarrow> mstate" where
  "capture n rb st =
     (case st of (rb', rest', caps') \<Rightarrow>
        (rb', rest', (n, rev (take (length rb' - length rb) rb')) # caps'))"

primrec matches :: "regex \<Rightarrow> mstate \<Rightarrow> mstate list" where
  "matches Eps = (\<lambda>st. [st])"
| "matches (One c) = (\<lambda>st. step_char c st)"
| "matches (Cat a b) = (\<lambda>st. concat (map (matches b) (matches a st)))"
| "matches (Alt a b) = (\<lambda>st. matches a st @ matches b st)"
| "matches (Plus c) =
     (\<lambda>st. concat (map (\<lambda>(rb, rest, caps). greedy_runs c caps rb rest) (step_char c st)))"
| "matches (Star c) = (\<lambda>(rb, rest, caps). greedy_runs c caps rb rest)"
| "matches (LazyPlus c) =
     (\<lambda>st. concat (map (\<lambda>(rb, rest, caps). lazy_runs c caps rb rest) (step_char c st)))"
| "matches (Group n r) = (\<lambda>st. map (capture n (fst st)) (matches r st))"
| "matches (NotBehind a) =
     (\<lambda>(rb, rest, caps). case rb of [] \<Rightarrow> [(rb, rest, caps)]
                          | p # _ \<Rightarrow> if p = a then [] else [(rb, rest, caps)])"
| "matches (Ahead r) = (\<lambda>st. if matches r st = [] then [] else [st])"
| "matches Eos = (\<lambda>(rb, rest, caps). if at_eos rest then [(rb, rest, caps)] else [])"

text \<open>A sequence of patterns, and a literal string as a sequence of its characters.\<close>

fun seq :: "regex list \<Rightarrow> regex" where
  "seq [] = Eps"
| "seq (r # rs) = Cat r (seq rs)"

definition lits :: "string \<Rightarrow> regex" where
  "lits s = seq (map (\<lambda>c. One (Lit c)) s)"

text \<open>
  One match object: \<open>group(0)\<close> and the numbered groups. \<open>match_at\<close> is the match of
  the pattern that starts at the position, if there is one.
\<close>

record mtch =
  whole :: string
  groups :: "(nat \<times> string) list"

definition group :: "mtch \<Rightarrow> nat \<Rightarrow> string" where
  "group m n = (case map_of (groups m) n of Some g \<Rightarrow> g | None \<Rightarrow> [])"

definition match_at :: "regex \<Rightarrow> string \<Rightarrow> string \<Rightarrow> (mtch \<times> string \<times> string) option" where
  "match_at r rb rest =
     (case matches r (rb, rest, []) of
        [] \<Rightarrow> None
      | (rb', rest', caps) # _ \<Rightarrow>
          Some (\<lparr>whole = rev (take (length rb' - length rb) rb'), groups = caps\<rparr>, rb', rest'))"

text \<open>
  The scan shared by \<open>re.sub\<close>, \<open>re.split\<close> and \<open>re.finditer\<close>: the matches from
  left to right, none overlapping another, each with the text between the match before
  it and itself, and the text after the last match. Every pattern of the source starts
  with a literal character, so no match is empty; a position whose match would be empty
  is passed over.
\<close>

function finditer :: "regex \<Rightarrow> string \<Rightarrow> string \<Rightarrow> string \<Rightarrow> (string \<times> mtch) list \<times> string" where
  "finditer r rb gap [] = ([], rev gap)"
| "finditer r rb gap (x # xs) =
     (case match_at r rb (x # xs) of
        None \<Rightarrow> finditer r (x # rb) (x # gap) xs
      | Some (m, rb', rest') \<Rightarrow>
          if length rest' < length (x # xs)
          then (case finditer r rb' [] rest' of (ms, final) \<Rightarrow> ((rev gap, m) # ms, final))
          else finditer r (x # rb) (x # gap) xs)"
  by pat_completeness auto
termination
  by (relation "measure (\<lambda>(r, rb, gap, rest). length rest)") auto

definition scan :: "regex \<Rightarrow> string \<Rightarrow> (string \<times> mtch) list \<times> string" where
  "scan r s = finditer r [] [] s"

text \<open>\<open>re.sub(pattern, repl, s)\<close> with a function \<open>repl\<close> that keeps no state.\<close>

definition re_sub :: "regex \<Rightarrow> (mtch \<Rightarrow> string) \<Rightarrow> string \<Rightarrow> string" where
  "re_sub r repl s =
     (case scan r s of (ms, final) \<Rightarrow> concat (map (\<lambda>(gap, m). gap @ repl m) ms) @ final)"

text \<open>\<open>re.split(pattern, s)\<close> for a pattern that is one capturing group.\<close>

definition re_split :: "regex \<Rightarrow> string \<Rightarrow> string list" where
  "re_split r s =
     (case scan r s of (ms, final) \<Rightarrow> concat (map (\<lambda>(gap, m). [gap, group m 1]) ms) @ [final])"

section \<open>Blocks and rich text\<close>

datatype annotation = code | strikethrough | bold | italic

record rich_text =
  content :: string
  link :: "string option"
  annotations :: "annotation option"

definition plain_run :: "string \<Rightarrow> rich_text" where
  "plain_run s = \<lparr>content = s, link = None, annotations = None\<rparr>"

definition link_run :: "string \<Rightarrow> string \<Rightarrow> rich_text" where
  "link_run s u = \<lparr>content = s, link = Some u, annotations = None\<rparr>"

definition annotated_run :: "string \<Rightarrow> annotation \<Rightarrow> rich_text" where
  "annotated_run s a = \<lparr>content = s, link = None, annotations = Some a\<rparr>"

datatype list_type = numbered_list_item | bulleted_list_item

datatype block =
    Heading nat "rich_text list"
  | Paragraph "rich_text list"
  | Code "rich_text list" string
  | Quote "rich_text list"
  | ListItem list_type "rich_text list"
  | Image string "rich_text list option"
  | Divider

datatype py_error = KeyError | APIError

section \<open>URL validation\<close>

text \<open>
  \<open>urllib.parse.urlparse\<close> is a library function; the model takes it as a parameter
  giving the two fields the source reads, \<open>scheme\<close> and \<open>netloc\<close>, or \<open>None\<close> where
  it raises \<open>ValueError\<close>.
\<close>

type_synonym urlparse = "string \<Rightarrow> (string \<times> string) option"

definition is_url :: "urlparse \<Rightarrow> string \<Rightarrow> bool" where
  "is_url urlparse path =
     (case urlparse path of
        None \<Rightarrow> False
      | Some (scheme, netloc) \<Rightarrow> scheme \<noteq> [] \<and> netloc \<noteq> [])"

definition py_rstrip_char :: "char \<Rightarrow> string \<Rightarrow> string" where
  "py_rstrip_char c s = rev (dropWhile (\<lambda>x. x = c) (rev s))"

definition is_valid_url :: "urlparse \<Rightarrow> string \<Rightarrow> bool" where
  "is_valid_url urlparse url =
     (if url = [] \<or> py_strip url = [] then False
      else (case urlparse (py_rstrip_char (CHR '')'') url) of
              None \<Rightarrow> False
            | Some (scheme, netloc) \<Rightarrow>
                (scheme \<noteq> [] \<and> netloc \<noteq> []) \<and> scheme \<in> set [''http'', ''https'']))"

section \<open>Inline rich-text formatter\<close>

text \<open>The patterns of \<open>_parse_rich_text\<close>, in the order the source uses them.\<close>

definition link_re :: regex where
  "link_re =
     seq [NotBehind (CHR ''!''), lits ''['', Group 1 (Plus (NoneOf '']'')), lits '']('',
          Group 2 (Alt (seq [Plus (NoneOf '')''), lits '')'', Star (NoneOf '')'')])
                       (Plus (NoneOf '')''))),
          lits '')'']"

definition code_span_re :: regex where
  "code_span_re = Group 1 (seq [lits [CHR 0x60], Plus (NoneOf [CHR 0x60]), lits [CHR 0x60]])"

definition span_re :: regex where
  "span_re =
     Group 1
       (Alt (seq [lits ''~~'', Plus (NoneOf ''~''), lits ''~~''])
       (Alt (seq [lits ''**'', Plus (NoneOf ''*''), lits ''**''])
       (Alt (seq [lits ''*'', Plus (NoneOf ''*''), lits ''*''])
            (seq [lits ''__LINK_'', Plus Digit, lits ''__'']))))"

text \<open>\<open>str(n)\<close> for a natural number.\<close>

fun digits_of :: "nat \<Rightarrow> nat \<Rightarrow> string \<Rightarrow> string" where
  "digits_of 0 n acc = acc"
| "digits_of (Suc fuel) n acc =
     (let acc' = (''0123456789'' ! (n mod 10)) # acc
      in if n div 10 = 0 then acc' else digits_of fuel (n div 10) acc')"

definition str_of_nat :: "nat \<Rightarrow> string" where
  "str_of_nat n = digits_of (Suc n) n []"

definition placeholder_of :: "nat \<Rightarrow> string" where
  "placeholder_of link_counter = ''__LINK_'' @ str_of_nat link_counter @ ''__''"

type_synonym link_map = "string \<rightharpoonup> string \<times> string"

text \<open>
  \<open>re.sub(link pattern, save_link, text)\<close>: \<open>save_link\<close> is called on the matches from
  left to right, counting them and filling \<open>link_map\<close>.
\<close>

fun save_links :: "nat \<Rightarrow> link_map \<Rightarrow> (string \<times> mtch) list \<Rightarrow> string \<times> link_map" where
  "save_links link_counter link_map [] = ([], link_map)"
| "save_links link_counter link_map ((gap, m) # ms) =
     (let placeholder = placeholder_of link_counter;
          link_map' = link_map(placeholder \<mapsto> (group m 1, group m 2))
      in case save_links (Suc link_counter) link_map' ms of
           (out, lm) \<Rightarrow> (gap @ placeholder @ out, lm))"

definition extract_links :: "string \<Rightarrow> string \<times> link_map" where
  "extract_links text =
     (case scan link_re text of
        (ms, final) \<Rightarrow>
          (case save_links 0 Map.empty ms of (out, lm) \<Rightarrow> (out @ final, lm)))"

definition startswith :: "string \<Rightarrow> string \<Rightarrow> bool" where
  "startswith s p = (take (length p) s = p)"

definition endswith :: "string \<Rightarrow> string \<Rightarrow> bool" where
  "endswith s p = (length p \<le> length s \<and> drop (length s - length p) s = p)"

text \<open>The slice \<open>s[n:-n]\<close>.\<close>

definition inner :: "nat \<Rightarrow> string \<Rightarrow> string" where
  "inner n s = drop n (take (length s - n) s)"

text \<open>The run appended for one match of the span pattern.\<close>

definition span_run :: "urlparse \<Rightarrow> link_map \<Rightarrow> string \<Rightarrow> py_error + rich_text list" where
  "span_run urlparse link_map matched_text =
     (if startswith matched_text ''__LINK_'' then
        (case link_map matched_text of
           None \<Rightarrow> Inl KeyError
         | Some (link_text, link_url) \<Rightarrow>
             if is_valid_url urlparse link_url
             then Inr [link_run (take 2000 link_text) link_url]
             else Inr [plain_run (take 2000 (''['' @ link_text @ '']('' @ link_url @ '')''))])
      else if startswith matched_text ''~~'' then
        Inr [annotated_run (take 2000 (inner 2 matched_text)) strikethrough]
      else if startswith matched_text ''**'' then
        Inr [annotated_run (take 2000 (inner 2 matched_text)) bold]
      else if startswith matched_text ''*'' then
        Inr [annotated_run (take 2000 (inner 1 matched_text)) italic]
      else Inr [])"

definition plain_piece :: "string \<Rightarrow> rich_text list" where
  "plain_piece s = (if s = [] then [] else [plain_run (take 2000 s)])"

text \<open>The \<open>finditer\<close> loop over one part that is not a code span.\<close>

fun span_loop :: "urlparse \<Rightarrow> link_map \<Rightarrow> (string \<times> mtch) list \<Rightarrow> py_error + rich_text list" where
  "span_loop urlparse link_map [] = Inr []"
| "span_loop urlparse link_map ((gap, m) # ms) =
     (case span_run urlparse link_map (whole m) of
        Inl e \<Rightarrow> Inl e
      | Inr run \<Rightarrow>
          (case span_loop urlparse link_map ms of
             Inl e \<Rightarrow> Inl e
           | Inr runs \<Rightarrow> Inr (plain_piece gap @ run @ runs)))"

definition part_runs :: "urlparse \<Rightarrow> link_map \<Rightarrow> string \<Rightarrow> py_error + rich_text list" where
  "part_runs urlparse link_map part =
     (if part = [] then Inr []
      else if startswith part [CHR 0x60] \<and> endswith part [CHR 0x60] then
        (let code_text = inner 1 part
         in if code_text = [] then Inr [] else Inr [annotated_run (take 2000 code_text) code])
      else
        (case scan span_re part of
           (ms, remaining) \<Rightarrow>
             (case span_loop urlparse link_map ms of
                Inl e \<Rightarrow> Inl e
              | Inr runs \<Rightarrow> Inr (runs @ plain_piece remaining))))"

fun parts_loop :: "urlparse \<Rightarrow> link_map \<Rightarrow> string list \<Rightarrow> py_error + rich_text list" where
  "parts_loop urlparse link_map [] = Inr []"
| "parts_loop urlparse link_map (part # parts) =
     (case part_runs urlparse link_map part of
        Inl e \<Rightarrow> Inl e
      | Inr runs \<Rightarrow>
          (case parts_loop urlparse link_map parts of
             Inl e \<Rightarrow> Inl e
           | Inr others \<Rightarrow> Inr (runs @ others)))"

definition parse_rich_text :: "urlparse \<Rightarrow> string \<Rightarrow> py_error + rich_text list" where
  "parse_rich_text urlparse text0 =
     (case extract_links text0 of
        (text, link_map) \<Rightarrow>
          (case parts_loop urlparse link_map (re_split code_span_re text) of
             Inl e \<Rightarrow> Inl e
           | Inr rich_text \<Rightarrow> Inr (if rich_text = [] then [plain_run []] else rich_text)))"

section \<open>Code blocks\<close>

definition language_map :: "(string \<times> string) list" where
  "language_map =
    [(''py'', ''python''), (''python'', ''python''),
     (''js'', ''javascript''), (''javascript'', ''javascript''),
     (''ts'', ''typescript''), (''typescript'', ''typescript''),
     (''java'', ''java''), (''c'', ''c''), (''cpp'', ''c++''), (''c++'', ''c++''),
     (''csharp'', ''c#''), (''c#'', ''c#''), (''go'', ''go''), (''rust'', ''rust''),
     (''ruby'', ''ruby''), (''php'', ''php''), (''swift'', ''swift''),
     (''kotlin'', ''kotlin''), (''sql'', ''sql''), (''shell'', ''shell''),
     (''bash'', ''bash''), (''powershell'', ''powershell''),
     (''yaml'', ''yaml''), (''json'', ''json''), (''xml'', ''xml''),
     (''html'', ''html''), (''css'', ''css''), (''markdown'', ''markdown'')]"

definition map_language :: "string \<Rightarrow> string" where
  "map_language language =
     (case map_of language_map (py_lower language) of
        Some l \<Rightarrow> l
      | None \<Rightarrow> ''plain text'')"

text \<open>
  \<open>block_code(code, info)\<close>: \<open>info\<close> is \<open>None\<close> or a string; the empty string is
  falsy as \<open>None\<close> is. The result is the list of blocks appended to \<open>self.blocks\<close>.
\<close>

definition info_language :: "string option \<Rightarrow> string" where
  "info_language info =
     (case info of
        None \<Rightarrow> ''plain text''
      | Some i \<Rightarrow> if i = [] then ''plain text'' else py_strip i)"

definition block_code :: "string \<Rightarrow> string option \<Rightarrow> block list" where
  "block_code c info =
     (let language = info_language info;
          chunks = slices 2000 c
      in map (\<lambda>chunk. Code [plain_run chunk] (map_language language)) chunks)"

section \<open>Block builder\<close>

text \<open>
  The renderer's state: the blocks appended so far and the list type set by the last
  \<open>list\<close> event (\<open>None\<close> at construction). A handler returns the new state, or the
  exception it raises.
\<close>

record converter =
  blocks :: "block list"
  current_list_type :: "list_type option"

definition init_converter :: converter where
  "init_converter = \<lparr>blocks = [], current_list_type = None\<rparr>"

definition append_block :: "converter \<Rightarrow> block \<Rightarrow> converter" where
  "append_block cv b = cv\<lparr>blocks := blocks cv @ [b]\<rparr>"

definition heading :: "converter \<Rightarrow> string \<Rightarrow> int \<Rightarrow> py_error + converter" where
  "heading cv text level0 =
     (let level = (if level0 > 3 then 3 else level0)
      in if level < 1 then Inl KeyError
         else Inr (append_block cv (Heading (nat level) [plain_run (take 2000 text)])))"

definition paragraph_event :: "urlparse \<Rightarrow> converter \<Rightarrow> string \<Rightarrow> py_error + converter" where
  "paragraph_event urlparse cv text =
     (if py_strip text = [] then Inr cv
      else (case parse_rich_text urlparse text of
              Inl e \<Rightarrow> Inl e
            | Inr rt \<Rightarrow> Inr (append_block cv (Paragraph rt))))"

definition block_code_event :: "converter \<Rightarrow> string \<Rightarrow> string option \<Rightarrow> converter" where
  "block_code_event cv c info = cv\<lparr>blocks := blocks cv @ block_code c info\<rparr>"

definition block_quote :: "converter \<Rightarrow> string \<Rightarrow> converter" where
  "block_quote cv text = append_block cv (Quote [plain_run (take 2000 text)])"

definition list_event :: "converter \<Rightarrow> bool \<Rightarrow> converter" where
  "list_event cv ordered =
     cv\<lparr>current_list_type := Some (if ordered then numbered_list_item else bulleted_list_item)\<rparr>"

definition list_item :: "urlparse \<Rightarrow> converter \<Rightarrow> string \<Rightarrow> py_error + converter" where
  "list_item urlparse cv text =
     (let list_type = (case current_list_type cv of
                         None \<Rightarrow> bulleted_list_item
                       | Some t \<Rightarrow> t)
      in case parse_rich_text urlparse text of
           Inl e \<Rightarrow> Inl e
         | Inr rt \<Rightarrow> Inr (append_block cv (ListItem list_type rt)))"

definition image :: "converter \<Rightarrow> string \<Rightarrow> string \<Rightarrow> converter" where
  "image cv text url =
     (if url = [] \<or> py_strip url = [] then cv
      else append_block cv
             (Image url (if text = [] then None else Some [plain_run (take 2000 text)])))"

definition thematic_break :: "converter \<Rightarrow> converter" where
  "thematic_break cv = append_block cv Divider"

text \<open>The block-level events the markdown parser sends to the renderer.\<close>

datatype event =
    EHeading string int
  | EParagraph string
  | EBlockCode string "string option"
  | EBlockQuote string
  | EList bool
  | EListItem string
  | EImage string string
  | EThematicBreak

fun handle :: "urlparse \<Rightarrow> converter \<Rightarrow> event \<Rightarrow> py_error + converter" where
  "handle urlparse cv (EHeading text level) = heading cv text level"
| "handle urlparse cv (EParagraph text) = paragraph_event urlparse cv text"
| "handle urlparse cv (EBlockCode c info) = Inr (block_code_event cv c info)"
| "handle urlparse cv (EBlockQuote text) = Inr (block_quote cv text)"
| "handle urlparse cv (EList ordered) = Inr (list_event cv ordered)"
| "handle urlparse cv (EListItem text) = list_item urlparse cv text"
| "handle urlparse cv (EImage text url) = Inr (image cv text url)"
| "handle urlparse cv EThematicBreak = Inr (thematic_break cv)"

fun run_events :: "urlparse \<Rightarrow> converter \<Rightarrow> event list \<Rightarrow> py_error + converter" where
  "run_events urlparse cv [] = Inr cv"
| "run_events urlparse cv (e # es) =
     (case handle urlparse cv e of
        Inl err \<Rightarrow> Inl err
      | Inr cv' \<Rightarrow> run_events urlparse cv' es)"

text \<open>Every rich-text run of a block: its text runs and, for an image, its caption.\<close>

fun block_runs :: "block \<Rightarrow> rich_text list" where
  "block_runs (Heading n rt) = rt"
| "block_runs (Paragraph rt) = rt"
| "block_runs (Code rt l) = rt"
| "block_runs (Quote rt) = rt"
| "block_runs (ListItem t rt) = rt"
| "block_runs (Image u cap) = (case cap of None \<Rightarrow> [] | Some rt \<Rightarrow> rt)"
| "block_runs Divider = []"

text \<open>The event that sets the list type.\<close>

fun is_list_event :: "event \<Rightarrow> bool" where
  "is_list_event (EList ordered) = True"
| "is_list_event _ = False"

section \<open>Link normalizer\<close>

definition embed_re :: regex where
  "embed_re = seq [lits ''![['', Group 1 (Plus (NoneOf '']'')), lits '']]'']"

definition wiki_re :: regex where
  "wiki_re = seq [lits ''[['', Group 1 (Plus (NoneOf '']'')), lits '']]'']"

text \<open>\<open>s.split('|', 1)\<close> for a string that holds the separator.\<close>

definition split_pipe :: "string \<Rightarrow> string \<times> string" where
  "split_pipe s =
     (takeWhile (\<lambda>c. c \<noteq> CHR ''|'') s, drop 1 (dropWhile (\<lambda>c. c \<noteq> CHR ''|'') s))"

definition replace_wiki_link :: "(string \<rightharpoonup> string) \<Rightarrow> mtch \<Rightarrow> string" where
  "replace_wiki_link page_map m =
     (let link_content = group m 1;
          (page_name, display_text) =
             (if CHR ''|'' \<in> set link_content then split_pipe link_content
              else (link_content, link_content))
      in case page_map page_name of
           Some url \<Rightarrow> ''['' @ display_text @ '']('' @ url @ '')''
         | None \<Rightarrow> display_text)"

definition convert_obsidian_links :: "string \<Rightarrow> (string \<rightharpoonup> string) \<Rightarrow> string" where
  "convert_obsidian_links body page_map =
     (let body1 = re_sub embed_re (\<lambda>m. ''![]('' @ group m 1 @ '')'') body
      in re_sub wiki_re (replace_wiki_link page_map) body1)"

section \<open>Path resolver\<close>

text \<open>
  What the source asks of the Python library and of the file system, taken as
  parameters: \<open>urlparse\<close>, \<open>unquote\<close>, the operations of \<open>pathlib.Path\<close> on path
  strings, the file contents, the MD5 digest, and the provider's upload function. The
  file system does not change during a run. \<open>path_rglob d n\<close> lists the items
  \<open>Path(d).rglob(n)\<close> yields before it ends or raises: the source leaves its loop in
  both cases and returns \<open>None\<close>. \<open>path_rel_parent f v\<close> is the parent of \<open>f\<close> relative
  to \<open>v\<close>, with forward slashes, or \<open>None\<close> where \<open>relative_to\<close> raises
  \<open>ValueError\<close>. \<open>provider log file_path unique_path\<close> is the result of the provider's
  upload after the provider calls in \<open>log\<close>.
\<close>

record world =
  urlparse_of :: urlparse
  unquote :: "string \<Rightarrow> string"
  path_parent :: "string \<Rightarrow> string"
  path_join :: "string \<Rightarrow> string \<Rightarrow> string"
  path_name :: "string \<Rightarrow> string"
  path_suffix :: "string \<Rightarrow> string"
  path_resolve :: "string \<Rightarrow> string"
  path_exists :: "string \<Rightarrow> bool"
  path_is_file :: "string \<Rightarrow> bool"
  path_rglob :: "string \<Rightarrow> string \<Rightarrow> string list"
  path_rel_parent :: "string \<Rightarrow> string \<Rightarrow> string option"
  read_bytes :: "string \<Rightarrow> string option"
  md5_hexdigest :: "string \<Rightarrow> string"
  provider :: "(string \<times> string) list \<Rightarrow> string \<Rightarrow> string \<Rightarrow> string option"

definition decode_url_path :: "world \<Rightarrow> string \<Rightarrow> string" where
  "decode_url_path w path = unquote w path"

definition attachment_folders :: "string list" where
  "attachment_folders =
     [''attachments'', ''Attachments'', ''assets'', ''Assets'', ''files'', ''Files'',
      ''images'', ''Images'', ''pdfs'', ''PDFs'']"

definition existing_file :: "world \<Rightarrow> string \<Rightarrow> bool" where
  "existing_file w p = (path_exists w p \<and> path_is_file w p)"

text \<open>The loop over the attachment folders: the first folder that holds the file.\<close>

fun try_folders :: "world \<Rightarrow> string \<Rightarrow> string \<Rightarrow> string list \<Rightarrow> string option" where
  "try_folders w md_dir file_name [] = None"
| "try_folders w md_dir file_name (folder # folders) =
     (let folder_path = path_join w (path_join w md_dir folder) file_name
      in if existing_file w folder_path then Some (path_resolve w folder_path)
         else try_folders w md_dir file_name folders)"

text \<open>The loop over the items of the recursive search: the first that is a file.\<close>

fun first_file :: "world \<Rightarrow> string list \<Rightarrow> string option" where
  "first_file w [] = None"
| "first_file w (item # items) =
     (if path_is_file w item then Some (path_resolve w item) else first_file w items)"

definition resolve_relative_path :: "world \<Rightarrow> string \<Rightarrow> string \<Rightarrow> string \<Rightarrow> string option" where
  "resolve_relative_path w file_path0 markdown_file_path vault_dir =
     (if is_url (urlparse_of w) file_path0 then Some file_path0
      else
        let file_path = py_strip (decode_url_path w file_path0)
        in if file_path = [] then None
           else
             let md_dir = path_parent w markdown_file_path;
                 vault_path = path_resolve w vault_dir;
                 is_single_folder = (path_resolve w md_dir = vault_path);
                 relative_path = path_join w md_dir file_path
             in if existing_file w relative_path then Some (path_resolve w relative_path)
                else if is_single_folder then
                  (let file_name = path_name w file_path
                   in case try_folders w md_dir file_name attachment_folders of
                        Some found \<Rightarrow> Some found
                      | None \<Rightarrow> first_file w (path_rglob w md_dir file_name))
                else
                  (let vault_relative = path_join w vault_path file_path
                   in if existing_file w vault_relative
                      then Some (path_resolve w vault_relative)
                      else None))"

definition get_unique_path_for_file :: "world \<Rightarrow> string \<Rightarrow> string \<Rightarrow> string" where
  "get_unique_path_for_file w file_path0 vault_dir0 =
     (let file_path = path_resolve w file_path0;
          vault_dir = path_resolve w vault_dir0
      in case path_rel_parent w file_path vault_dir of
           Some parent_path \<Rightarrow>
             if parent_path = ''.'' \<or> parent_path = [] then ''root'' else parent_path
         | None \<Rightarrow> take 8 (md5_hexdigest w file_path))"

section \<open>Attachment cache and uploader\<close>

record upload_stats =
  images :: nat
  pdfs :: nat
  other :: nat
  failed :: nat
  skipped_dirs :: nat

text \<open>
  The uploader's state: its cache and counters, and the list of the calls made to the
  provider so far (file path and unique path), which the source does not keep and the
  model records to count them.
\<close>

record file_uploader =
  cache :: "string \<rightharpoonup> string"
  stats :: upload_stats
  provider_calls :: "(string \<times> string) list"

definition init_uploader :: file_uploader where
  "init_uploader =
     \<lparr>cache = Map.empty,
      stats = \<lparr>images = 0, pdfs = 0, other = 0, failed = 0, skipped_dirs = 0\<rparr>,
      provider_calls = []\<rparr>"

definition get_cache_key :: "world \<Rightarrow> string \<Rightarrow> string" where
  "get_cache_key w file_path =
     (case read_bytes w file_path of
        Some bytes \<Rightarrow> file_path @ ''_'' @ md5_hexdigest w bytes
      | None \<Rightarrow> file_path)"

definition count_upload :: "world \<Rightarrow> string \<Rightarrow> upload_stats \<Rightarrow> upload_stats" where
  "count_upload w file_path st =
     (let file_ext = py_lower (path_suffix w file_path)
      in if file_ext = ''.pdf'' then st\<lparr>pdfs := pdfs st + 1\<rparr>
         else if file_ext \<in> set [''.png'', ''.jpg'', ''.jpeg'', ''.gif'', ''.webp'', ''.svg'', ''.bmp'']
         then st\<lparr>images := images st + 1\<rparr>
         else st\<lparr>other := other st + 1\<rparr>)"

text \<open>A URL is truthy when it is neither \<open>None\<close> nor the empty string.\<close>

definition truthy :: "string option \<Rightarrow> bool" where
  "truthy url = (case url of None \<Rightarrow> False | Some u \<Rightarrow> u \<noteq> [])"

definition upload :: "world \<Rightarrow> file_uploader \<Rightarrow> string \<Rightarrow> string \<Rightarrow> string option \<times> file_uploader" where
  "upload w up file_path unique_path =
     (if \<not> path_exists w file_path then
        (None, up\<lparr>stats := (stats up)\<lparr>failed := failed (stats up) + 1\<rparr>\<rparr>)
      else if \<not> path_is_file w file_path then
        (None, up\<lparr>stats := (stats up)\<lparr>skipped_dirs := skipped_dirs (stats up) + 1\<rparr>\<rparr>)
      else
        let cache_key = get_cache_key w file_path
        in case cache up cache_key of
             Some cached \<Rightarrow> (Some cached, up)
           | None \<Rightarrow>
               let url = provider w (provider_calls up) file_path unique_path;
                   up1 = up\<lparr>provider_calls := provider_calls up @ [(file_path, unique_path)]\<rparr>
               in if truthy url then
                    (url, up1\<lparr>cache := (cache up1)(cache_key \<mapsto> the url),
                              stats := count_upload w file_path (stats up1)\<rparr>)
                  else
                    (url, up1\<lparr>stats := (stats up1)\<lparr>failed := failed (stats up1) + 1\<rparr>\<rparr>))"

section \<open>Attachment rewrite before parsing\<close>

text \<open>The look-ahead of the image pattern: white space, the end, or the start of a link.\<close>

definition span_boundary :: regex where
  "span_boundary =
     Alt (One Space) (Alt Eos (Alt (One (Lit (CHR 0x0A)))
       (Alt (One (Lit (CHR ''!''))) (One (Lit (CHR ''[''))))))"

definition image_re :: regex where
  "image_re =
     seq [lits ''!['', Group 1 (Star (NoneOf '']'')), lits '']('', Group 2 (LazyPlus Dot),
          lits '')'', Ahead span_boundary]"

definition src_re :: regex where
  "src_re = seq [lits '']('', Group 1 (Plus Dot), lits '')'', Eos]"

text \<open>\<open>re.search(pattern, s)\<close>: the first match of the scan.\<close>

definition re_search :: "regex \<Rightarrow> string \<Rightarrow> mtch option" where
  "re_search r s = (case fst (scan r s) of [] \<Rightarrow> None | (gap, m) # _ \<Rightarrow> Some m)"

definition image_md :: "string \<Rightarrow> string \<Rightarrow> string" where
  "image_md alt url = ''!['' @ alt @ '']('' @ url @ '')''"

text \<open>
  The state the rewrite threads through a document: the per-document map
  \<open>uploaded_images\<close> and the uploader (\<open>None\<close> when the caller passes none).
\<close>

record rewrite_state =
  uploaded_images :: "string \<rightharpoonup> string"
  uploader :: "file_uploader option"

definition upload_and_replace_image ::
    "world \<Rightarrow> string \<Rightarrow> string \<Rightarrow> rewrite_state \<Rightarrow> mtch \<Rightarrow> string \<times> rewrite_state" where
  "upload_and_replace_image w markdown_file_path vault_dir rs m =
     (let full_match = whole m; alt = group m 1
      in case re_search src_re full_match of
           None \<Rightarrow> (full_match, rs)
         | Some src_match \<Rightarrow>
             let src = group src_match 1
             in if is_url (urlparse_of w) src then (image_md alt src, rs)
                else case uploaded_images rs src of
                  Some cached \<Rightarrow> (image_md alt cached, rs)
                | None \<Rightarrow>
                    let decoded_src = unquote w src
                    in case resolve_relative_path w decoded_src markdown_file_path vault_dir of
                         None \<Rightarrow> (image_md alt src, rs)
                       | Some file_path \<Rightarrow>
                           (case uploader rs of
                              None \<Rightarrow> (image_md alt src, rs)
                            | Some up \<Rightarrow>
                                if file_path = [] \<or> \<not> path_is_file w file_path
                                then (image_md alt src, rs)
                                else
                                  let unique_path = get_unique_path_for_file w file_path vault_dir;
                                      (file_url, up') = upload w up file_path unique_path
                                  in if truthy file_url then
                                       (image_md alt (the file_url),
                                        rs\<lparr>uploaded_images := (uploaded_images rs)(src \<mapsto> the file_url),
                                           uploader := Some up'\<rparr>)
                                     else (image_md alt src, rs\<lparr>uploader := Some up'\<rparr>)))"

text \<open>\<open>re.sub(image pattern, upload_and_replace_image, content)\<close>, left to right.\<close>

fun rewrite_matches ::
    "world \<Rightarrow> string \<Rightarrow> string \<Rightarrow> rewrite_state \<Rightarrow> (string \<times> mtch) list \<Rightarrow> string \<times> rewrite_state" where
  "rewrite_matches w md vd rs [] = ([], rs)"
| "rewrite_matches w md vd rs ((gap, m) # ms) =
     (case upload_and_replace_image w md vd rs m of
        (out, rs') \<Rightarrow>
          (case rewrite_matches w md vd rs' ms of
             (outs, rs'') \<Rightarrow> (gap @ out @ outs, rs'')))"

definition rewrite_images ::
    "world \<Rightarrow> string \<Rightarrow> string \<Rightarrow> file_uploader option \<Rightarrow> string \<Rightarrow> string \<times> rewrite_state" where
  "rewrite_images w markdown_file_path vault_dir up body =
     (case scan image_re body of
        (ms, final) \<Rightarrow>
          (case rewrite_matches w markdown_file_path vault_dir
                  \<lparr>uploaded_images = Map.empty, uploader = up\<rparr> ms of
             (out, rs) \<Rightarrow> (out @ final, rs)))"

section \<open>Batch submission\<close>

text \<open>
  The destination API is a collaborator: \<open>api log children\<close> tells whether the call
  \<open>notion.blocks.children.append(children=children)\<close> succeeds after the calls in
  \<open>log\<close>. The log records every call with its outcome, in order.
\<close>

type_synonym 'b api_log = "('b list \<times> bool) list"
type_synonym 'b api = "'b api_log \<Rightarrow> 'b list \<Rightarrow> bool"

definition append_children :: "'b api \<Rightarrow> 'b api_log \<Rightarrow> 'b list \<Rightarrow> bool \<times> 'b api_log" where
  "append_children api log children =
     (let ok = api log children in (ok, log @ [(children, ok)]))"

text \<open>The inner loop: every block of the failed batch alone, its failure only printed.\<close>

fun retry_singly :: "'b api \<Rightarrow> 'b api_log \<Rightarrow> 'b list \<Rightarrow> 'b api_log" where
  "retry_singly api log [] = log"
| "retry_singly api log (single_block # rest) =
     retry_singly api (snd (append_children api log [single_block])) rest"

text \<open>The outer loop over the batches; \<open>Inl\<close> is the re-raised exception.\<close>

fun emit_batches :: "'b api \<Rightarrow> 'b api_log \<Rightarrow> 'b list list \<Rightarrow> 'b api_log \<times> (py_error + unit)" where
  "emit_batches api log [] = (log, Inr ())"
| "emit_batches api log (batch # rest) =
     (case append_children api log batch of
        (True, log') \<Rightarrow> emit_batches api log' rest
      | (False, log') \<Rightarrow> (retry_singly api log' batch, Inl APIError))"

definition submit_blocks :: "'b api \<Rightarrow> 'b api_log \<Rightarrow> 'b list \<Rightarrow> 'b api_log \<times> (py_error + unit)" where
  "submit_blocks api log bs =
     (if bs = [] then (log, Inr ())
      else emit_batches api log (slices 100 bs))"

section \<open>The length bound on runs\<close>

definition short_runs :: "rich_text list \<Rightarrow> bool" where
  "short_runs rt = (\<forall>r \<in> set rt. length (content r) \<le> 2000)"

definition short_blocks :: "block list \<Rightarrow> bool" where
  "short_blocks bs = (\<forall>b \<in> set bs. short_runs (block_runs b))"

section \<open>The resolution order in the words of the specification\<close>



section \<open>Texts without double opening brackets\<close>

text \<open>\<open>has_open2 s\<close>: two opening square brackets stand side by side somewhere in \<open>s\<close>.\<close>

fun has_open2 :: "string \<Rightarrow> bool" where
  "has_open2 [] = False"
| "has_open2 [a] = False"
| "has_open2 (a # b # s) = ((a = CHR ''['' \<and> b = CHR ''['') \<or> has_open2 (b # s))"

section \<open>Patterns that end a repetition\<close>

text \<open>A pattern that fails wherever the text goes on with a character of the class.\<close>

definition needs_stop :: "cclass \<Rightarrow> regex \<Rightarrow> bool" where
  "needs_stop c R = (\<forall>rb y rest caps. cmatch c y \<longrightarrow> matches R (rb, y # rest, caps) = [])"

section \<open>Patterns without look-behind\<close>

text \<open>A pattern that never looks at the text before the position.\<close>

fun no_lookbehind :: "regex \<Rightarrow> bool" where
  "no_lookbehind (NotBehind a) = False"
| "no_lookbehind (Cat a b) = (no_lookbehind a \<and> no_lookbehind b)"
| "no_lookbehind (Alt a b) = (no_lookbehind a \<and> no_lookbehind b)"
| "no_lookbehind (Group n r) = no_lookbehind r"
| "no_lookbehind (Ahead r) = no_lookbehind r"
| "no_lookbehind _ = True"

text \<open>The state \<open>st\<close> seen from a position with \<open>rb\<close> more text before it.\<close>

definition shift :: "string \<Rightarrow> mstate \<Rightarrow> mstate" where
  "shift rb st = (case st of (rb', rest, caps) \<Rightarrow> (rb' @ rb, rest, caps))"

text \<open>The output of \<open>re.sub\<close> from a position inside the text.\<close>

definition sub_from :: "regex \<Rightarrow> (mtch \<Rightarrow> string) \<Rightarrow> string \<Rightarrow> string \<Rightarrow> string \<Rightarrow> string" where
  "sub_from r repl rb gap rest =
     (case finditer r rb gap rest of
        (ms, final) \<Rightarrow> concat (map (\<lambda>(gap, m). gap @ repl m) ms) @ final)"

section \<open>Models of the library and a small file tree, for concrete runs\<close>

text \<open>
  The scheme and the network location as CPython's \<open>urlsplit\<close> finds them: leading
  control characters and spaces are dropped, tabs and line ends removed, the scheme is
  the text before the first colon when it starts with a letter and holds scheme
  characters only, the location is what follows \<open>//\<close> up to the next \<open>/\<close>, \<open>?\<close> or
  \<open>#\<close>; an unpaired bracket in the location raises. The later checks of a bracketed
  host are left out.
\<close>

definition scheme_chars :: string where
  "scheme_chars = ''abcdefghijklmnopqrstuvwxyzABCDEFGHIJKLMNOPQRSTUVWXYZ0123456789+-.''"

definition ascii_letters :: string where
  "ascii_letters = ''abcdefghijklmnopqrstuvwxyzABCDEFGHIJKLMNOPQRSTUVWXYZ''"

definition urlsplit :: urlparse where
  "urlsplit url0 =
     (let url1 = dropWhile (\<lambda>c. (of_char c :: nat) \<le> 32) url0;
          url2 = filter (\<lambda>c. c \<notin> set [CHR 0x09, CHR 0x0A, CHR 0x0D]) url1;
          pre = takeWhile (\<lambda>c. c \<noteq> CHR '':'') url2;
          has_scheme = (length pre < length url2 \<and> pre \<noteq> [] \<and> hd pre \<in> set ascii_letters
                        \<and> list_all (\<lambda>c. c \<in> set scheme_chars) pre);
          scheme = (if has_scheme then py_lower pre else []);
          url3 = (if has_scheme then drop (Suc (length pre)) url2 else url2);
          netloc = (if take 2 url3 = ''//''
                    then takeWhile (\<lambda>c. c \<notin> set ''/?#'') (drop 2 url3) else [])
      in if (CHR ''['' \<in> set netloc) \<noteq> (CHR '']'' \<in> set netloc) then None
         else Some (scheme, netloc))"

text \<open>
  A flat POSIX tree: the document \<open>/v/doc.md\<close> in the root \<open>/v\<close>, the files
  \<open>/v/attachments/pic.png\<close> and \<open>/v/copy.png\<close> with the same bytes, and a provider
  that answers with a URL built from the unique path and the file name.
\<close>

definition before_last_slash :: "string \<Rightarrow> string" where
  "before_last_slash p = rev (drop 1 (dropWhile (\<lambda>c. c \<noteq> CHR ''/'') (rev p)))"

definition after_last_slash :: "string \<Rightarrow> string" where
  "after_last_slash p = rev (takeWhile (\<lambda>c. c \<noteq> CHR ''/'') (rev p))"

definition demo_files :: "(string \<times> string) list" where
  "demo_files =
     [(''/v/doc.md'', ''# doc''), (''/v/attachments/pic.png'', ''PNG1''),
      (''/v/copy.png'', ''PNG1'')]"

definition demo_dirs :: "string list" where
  "demo_dirs = [''/v'', ''/v/attachments'']"

definition demo_provider :: "(string \<times> string) list \<Rightarrow> string \<Rightarrow> string \<Rightarrow> string option" where
  "demo_provider log file_path unique_path =
     Some (''https://cdn/'' @ unique_path @ ''/'' @ after_last_slash file_path)"

definition demo_world :: world where
  "demo_world =
     \<lparr>urlparse_of = urlsplit,
      unquote = (\<lambda>s. s),
      path_parent = before_last_slash,
      path_join = (\<lambda>a b. if take 1 b = ''/'' then b else a @ ''/'' @ b),
      path_name = after_last_slash,
      path_suffix = (\<lambda>p. rev (takeWhile (\<lambda>c. c \<noteq> CHR ''.'') (rev p)) ),
      path_resolve = (\<lambda>p. p),
      path_exists = (\<lambda>p. p \<in> set (map fst demo_files) \<or> p \<in> set demo_dirs),
      path_is_file = (\<lambda>p. p \<in> set (map fst demo_files)),
      path_rglob = (\<lambda>d n. filter (\<lambda>p. after_last_slash p = n \<and> take (length d) p = d)
                               (map fst demo_files)),
      path_rel_parent = (\<lambda>f v. if take (Suc (length v)) f = v @ ''/''
                               then Some (before_last_slash (drop (Suc (length v)) f)) else None),
      read_bytes = map_of demo_files,
      md5_hexdigest = (\<lambda>bytes. ''md5:'' @ bytes),
      provider = demo_provider\<rparr>"

text \<open>A destination API that rejects every call with exactly two blocks.\<close>

definition rejects_pairs :: "block api" where
  "rejects_pairs log children = (length children \<noteq> 2)"

text \<open>A destination API that rejects the second call it receives, whatever it holds.\<close>

definition rejects_second_call :: "block api" where
  "rejects_second_call log children = (length log \<noteq> 1)"


section \<open>Slices\<close>

lemma slices_Nil: "slices n [] = []"
  by (cases "n = 0") (simp_all add: slices_def py_range_step_def)

lemma range_count_step:
  assumes "0 < n" "0 < len"
  shows "(len + n - 1) div n = Suc (((len - n) + n - 1) div n)"
proof (cases "len \<le> n")
  case True
  with assms have "(len + n - 1) div n = 1"
    by (simp add: div_nat_eqI)
  moreover from True assms have "((len - n) + n - 1) div n = 0" by simp
  ultimately show ?thesis by simp
next
  case False
  then have "len + n - 1 = (len - n) + n - 1 + n" by simp
  then show ?thesis using assms by (metis div_add_self2 less_numeral_extra(3) Suc_eq_plus1)
qed

lemma slices_step:
  assumes "0 < n" "xs \<noteq> []"
  shows "slices n xs = take n xs # slices n (drop n xs)"
proof -
  let ?m = "((length xs - n) + n - 1) div n"
  have cnt: "(length xs + n - Suc 0) div n = Suc ((length xs - n + n - Suc 0) div n)"
    using range_count_step [of n "length xs"] assms by simp
  have "slices n xs = map (\<lambda>k. take n (drop (k * n) xs)) [0 ..< Suc ?m]"
    by (simp add: slices_def py_range_step_def cnt comp_def del: upt_Suc)
  also have "[0 ..< Suc ?m] = 0 # map Suc [0 ..< ?m]"
    by (simp add: upt_conv_Cons map_Suc_upt del: upt_Suc)
  also have "map (\<lambda>k. take n (drop (k * n) xs)) (0 # map Suc [0 ..< ?m])
      = take n xs # map (\<lambda>k. take n (drop (k * n) (drop n xs))) [0 ..< ?m]"
    by (simp add: comp_def add.commute)
  also have "map (\<lambda>k. take n (drop (k * n) (drop n xs))) [0 ..< ?m] = slices n (drop n xs)"
    by (simp add: slices_def py_range_step_def comp_def)
  finally show ?thesis .
qed

lemma concat_slices: "0 < n \<Longrightarrow> concat (slices n xs) = xs"
proof (induction "length xs" arbitrary: xs rule: less_induct)
  case less
  show ?case
  proof (cases "xs = []")
    case True
    then show ?thesis by (simp add: slices_Nil)
  next
    case False
    with less.prems have "length (drop n xs) < length xs" by simp
    then have "concat (slices n (drop n xs)) = drop n xs"
      using less.hyps less.prems by blast
    then show ?thesis using slices_step [OF less.prems False] by simp
  qed
qed

lemma slices_bound: "0 < n \<Longrightarrow> c \<in> set (slices n xs) \<Longrightarrow> length c \<le> n \<and> c \<noteq> []"
proof (induction "length xs" arbitrary: xs rule: less_induct)
  case less
  show ?case
  proof (cases "xs = []")
    case True
    with less.prems show ?thesis by (simp add: slices_Nil)
  next
    case False
    with less.prems have lt: "length (drop n xs) < length xs" by simp
    from less.prems slices_step [OF less.prems(1) False]
    have "c = take n xs \<or> c \<in> set (slices n (drop n xs))" by simp
    then show ?thesis
    proof
      assume "c = take n xs"
      then show ?thesis using False less.prems(1) by simp
    next
      assume "c \<in> set (slices n (drop n xs))"
      then show ?thesis using less.hyps [OF lt less.prems(1)] by blast
    qed
  qed
qed

lemma slices_250:
  assumes "length xs = 250"
  shows "slices 100 xs = [take 100 xs, take 100 (drop 100 xs), drop 200 xs]"
proof -
  have a: "xs \<noteq> []" using assms by auto
  have b: "drop 100 xs \<noteq> []" using assms by auto
  have c: "drop 100 (drop 100 xs) \<noteq> []" using assms by auto
  have d: "drop 100 (drop 100 (drop 100 xs)) = []" using assms by simp
  have "slices 100 xs = take 100 xs # take 100 (drop 100 xs)
          # take 100 (drop 100 (drop 100 xs)) # slices 100 (drop 100 (drop 100 (drop 100 xs)))"
    using slices_step [of 100, OF _ a] slices_step [of 100, OF _ b]
      slices_step [of 100, OF _ c] by simp
  then show ?thesis using assms by (simp add: d slices_Nil)
qed

section \<open>Batch emitter\<close>

lemma retry_singly_outcomes:
  "\<exists>singles. retry_singly api log batch = log @ singles
      \<and> map fst singles = map (\<lambda>b. [b]) batch
      \<and> (\<forall>j < length singles. snd (singles ! j) = api (log @ take j singles) [batch ! j])"
proof (induction batch arbitrary: log)
  case Nil
  show ?case by simp
next
  case (Cons b batch)
  let ?e = "([b], api log [b])"
  from Cons.IH [of "log @ [?e]"] obtain singles where
    s: "retry_singly api (log @ [?e]) batch = (log @ [?e]) @ singles"
       "map fst singles = map (\<lambda>b. [b]) batch"
       "\<forall>j < length singles. snd (singles ! j) = api ((log @ [?e]) @ take j singles) [batch ! j]"
    by blast
  have "\<forall>j < length (?e # singles).
          snd ((?e # singles) ! j) = api (log @ take j (?e # singles)) [(b # batch) ! j]"
  proof (intro allI impI)
    fix j assume j: "j < length (?e # singles)"
    show "snd ((?e # singles) ! j) = api (log @ take j (?e # singles)) [(b # batch) ! j]"
    proof (cases j)
      case 0
      then show ?thesis by simp
    next
      case (Suc j')
      with j s(3) show ?thesis by simp
    qed
  qed
  with s(1) s(2) show ?case
    by (intro exI [of _ "?e # singles"]) (simp add: append_children_def Let_def)
qed

lemma emit_batches_all_accepted:
  "(\<forall>k < length bs. api (log @ map (\<lambda>b. (b, True)) (take k bs)) (bs ! k))
     \<Longrightarrow> emit_batches api log bs = (log @ map (\<lambda>b. (b, True)) bs, Inr ())"
proof (induction bs arbitrary: log)
  case Nil
  show ?case by simp
next
  case (Cons batch bs)
  from Cons.prems have a: "api log batch" by fastforce
  have "\<forall>k < length bs. api ((log @ [(batch, True)]) @ map (\<lambda>b. (b, True)) (take k bs)) (bs ! k)"
  proof (intro allI impI)
    fix k assume "k < length bs"
    then have "Suc k < length (batch # bs)" by simp
    from Cons.prems [rule_format, OF this] show
      "api ((log @ [(batch, True)]) @ map (\<lambda>b. (b, True)) (take k bs)) (bs ! k)" by simp
  qed
  from Cons.IH [OF this] a show ?case by (simp add: append_children_def)
qed

lemma emit_batches_first_rejected:
  "k < length bs \<Longrightarrow> (\<forall>i < k. api (log @ map (\<lambda>b. (b, True)) (take i bs)) (bs ! i))
     \<Longrightarrow> \<not> api (log @ map (\<lambda>b. (b, True)) (take k bs)) (bs ! k)
     \<Longrightarrow> emit_batches api log bs
           = (retry_singly api (log @ map (\<lambda>b. (b, True)) (take k bs) @ [(bs ! k, False)]) (bs ! k),
              Inl APIError)"
proof (induction bs arbitrary: log k)
  case Nil
  then show ?case by simp
next
  case (Cons batch bs)
  show ?case
  proof (cases k)
    case 0
    with Cons.prems show ?thesis by (simp add: append_children_def)
  next
    case (Suc k')
    with Cons.prems have a: "api log batch" by fastforce
    from Suc Cons.prems(1) have k': "k' < length bs" by simp
    have b: "\<forall>i < k'. api ((log @ [(batch, True)]) @ map (\<lambda>b. (b, True)) (take i bs)) (bs ! i)"
    proof (intro allI impI)
      fix i assume "i < k'"
      then have "Suc i < k" using Suc by simp
      from Cons.prems(2) [rule_format, OF this] show
        "api ((log @ [(batch, True)]) @ map (\<lambda>b. (b, True)) (take i bs)) (bs ! i)" by simp
    qed
    have c: "\<not> api ((log @ [(batch, True)]) @ map (\<lambda>b. (b, True)) (take k' bs)) (bs ! k')"
      using Cons.prems(3) Suc by simp
    from Cons.IH [OF k' b c] a Suc show ?thesis by (simp add: append_children_def)
  qed
qed

text \<open>
  Claim C2 (as stated, refuted): both blocks of a rejected batch are accepted when sent
  alone, and the failure is raised all the same.
\<close>

theorem submit_reraises_without_failed_block:
  "submit_blocks rejects_pairs [] [Divider, Divider]
     = ([([Divider, Divider], False), ([Divider], True), ([Divider], True)], Inl APIError)"
  by (simp add: submit_blocks_def slices_step slices_Nil append_children_def rejects_pairs_def)

text \<open>
  Claim C2 (amended). The blocks are submitted in consecutive batches of at least one and
  at most 100 blocks that concatenate to the block sequence (250 blocks: 100, 100, 50),
  each call made after the calls before it. When the API accepts every batch, the calls
  are exactly the batches and the submission returns. When batch \<open>k\<close> is the first the
  API rejects, the batches before it were accepted, every block of batch \<open>k\<close> is then
  submitted alone in the original order with the outcome the API gives it, no later
  batch is submitted, and the failure is raised whatever the outcomes of the single
  submissions.
\<close>

theorem submit_blocks_batches_and_retry:
  "concat (slices 100 bs) = bs
   \<and> (\<forall>batch \<in> set (slices 100 bs). batch \<noteq> [] \<and> length batch \<le> 100)
   \<and> (length bs = 250 \<longrightarrow> map length (slices 100 bs) = [100, 100, 50])
   \<and> ((\<forall>k < length (slices 100 bs).
          api (log @ map (\<lambda>b. (b, True)) (take k (slices 100 bs))) (slices 100 bs ! k)) \<longrightarrow>
        submit_blocks api log bs = (log @ map (\<lambda>b. (b, True)) (slices 100 bs), Inr ()))
   \<and> (k < length (slices 100 bs)
        \<and> (\<forall>i < k. api (log @ map (\<lambda>b. (b, True)) (take i (slices 100 bs))) (slices 100 bs ! i))
        \<and> \<not> api (log @ map (\<lambda>b. (b, True)) (take k (slices 100 bs))) (slices 100 bs ! k) \<longrightarrow>
        (\<exists>singles.
           submit_blocks api log bs
             = (log @ map (\<lambda>b. (b, True)) (take k (slices 100 bs)) @ (slices 100 bs ! k, False) # singles,
                Inl APIError)
           \<and> map fst singles = map (\<lambda>b. [b]) (slices 100 bs ! k)
           \<and> (\<forall>j < length singles.
                 snd (singles ! j)
                   = api (log @ map (\<lambda>b. (b, True)) (take k (slices 100 bs))
                              @ (slices 100 bs ! k, False) # take j singles)
                         [slices 100 bs ! k ! j])))"
proof -
  let ?bs = "slices 100 bs"
  let ?T = "\<lambda>b. (b, True)"
  have a: "concat ?bs = bs" by (simp add: concat_slices)
  have b: "\<forall>batch \<in> set ?bs. batch \<noteq> [] \<and> length batch \<le> 100"
    using slices_bound [of 100 _ bs] by simp
  have c: "length bs = 250 \<longrightarrow> map length ?bs = [100, 100, 50]"
    by (auto simp: slices_250)
  have sub: "submit_blocks api log bs = emit_batches api log ?bs"
    by (simp add: submit_blocks_def slices_Nil)
  have d: "(\<forall>k < length ?bs. api (log @ map ?T (take k ?bs)) (?bs ! k)) \<longrightarrow>
        submit_blocks api log bs = (log @ map ?T ?bs, Inr ())"
    using emit_batches_all_accepted [of ?bs api log] by (simp add: sub)
  have e: "\<exists>singles.
           submit_blocks api log bs
             = (log @ map ?T (take k ?bs) @ (?bs ! k, False) # singles, Inl APIError)
           \<and> map fst singles = map (\<lambda>b. [b]) (?bs ! k)
           \<and> (\<forall>j < length singles.
                 snd (singles ! j)
                   = api (log @ map ?T (take k ?bs) @ (?bs ! k, False) # take j singles) [?bs ! k ! j])"
    if h: "k < length ?bs" "\<forall>i < k. api (log @ map ?T (take i ?bs)) (?bs ! i)"
      "\<not> api (log @ map ?T (take k ?bs)) (?bs ! k)"
  proof -
    let ?l = "log @ map ?T (take k ?bs) @ [(?bs ! k, False)]"
    from retry_singly_outcomes [of api ?l "?bs ! k"] obtain singles where
      s: "retry_singly api ?l (?bs ! k) = ?l @ singles"
         "map fst singles = map (\<lambda>b. [b]) (?bs ! k)"
         "\<forall>j < length singles. snd (singles ! j) = api (?l @ take j singles) [?bs ! k ! j]"
      by blast
    from emit_batches_first_rejected [OF h] s(1)
    have "submit_blocks api log bs
        = (log @ map ?T (take k ?bs) @ (?bs ! k, False) # singles, Inl APIError)"
      by (simp add: sub)
    with s(2) s(3) show ?thesis by (intro exI [of _ singles]) simp
  qed
  from a b c d e show ?thesis by blast
qed

lemma all_true_replicate:
  assumes "map fst singles = replicate n x" "\<forall>j < length singles. snd (singles ! j) = y"
  shows "singles = replicate n (x, y)"
proof (rule nth_equalityI)
  from assms(1) have l: "length singles = n" by (metis length_map length_replicate)
  then show "length singles = length (replicate n (x, y))" by simp
  fix i assume i: "i < length singles"
  with assms(1) have "fst (singles ! i) = x" by (metis l nth_map nth_replicate)
  moreover from assms(2) i have "snd (singles ! i) = y" by blast
  ultimately show "singles ! i = replicate n (x, y) ! i" using i l by (simp add: prod_eq_iff)
qed

theorem submit_blocks_batches_and_retry_witness:
  "map length (slices 100 (replicate 250 Divider)) = [100, 100, 50]
   \<and> submit_blocks rejects_pairs [] (replicate 250 Divider)
       = ([(replicate 100 Divider, True), (replicate 100 Divider, True), (replicate 50 Divider, True)],
          Inr ())
   \<and> submit_blocks rejects_second_call [] (replicate 250 Divider)
       = ([(replicate 100 Divider, True), (replicate 100 Divider, False)]
            @ replicate 100 ([Divider], True),
          Inl APIError)"
proof -
  let ?bs = "replicate 250 Divider"
  have sl: "slices 100 ?bs = [replicate 100 Divider, replicate 100 Divider, replicate 50 Divider]"
    by (simp add: slices_250)
  note t = submit_blocks_batches_and_retry [of ?bs]
  have one: "map length (slices 100 ?bs) = [100, 100, 50]"
    using t by simp
  have ok: "\<forall>k < length (slices 100 ?bs).
      rejects_pairs ([] @ map (\<lambda>b. (b, True)) (take k (slices 100 ?bs))) (slices 100 ?bs ! k)"
    by (simp add: sl rejects_pairs_def less_Suc_eq nth_Cons')
  from t [of rejects_pairs "[]"] ok
  have two: "submit_blocks rejects_pairs [] ?bs = ([] @ map (\<lambda>b. (b, True)) (slices 100 ?bs), Inr ())"
    by blast
  have k: "1 < length (slices 100 ?bs)" by (simp add: sl)
  have before: "\<forall>i < 1. rejects_second_call ([] @ map (\<lambda>b. (b, True)) (take i (slices 100 ?bs)))
      (slices 100 ?bs ! i)"
    by (simp add: rejects_second_call_def)
  have rej: "\<not> rejects_second_call ([] @ map (\<lambda>b. (b, True)) (take 1 (slices 100 ?bs)))
      (slices 100 ?bs ! 1)"
    by (simp add: sl rejects_second_call_def)
  from t [of rejects_second_call "[]" 1] k before rej obtain singles where
    s: "submit_blocks rejects_second_call [] ?bs
          = ([] @ map (\<lambda>b. (b, True)) (take 1 (slices 100 ?bs)) @ (slices 100 ?bs ! 1, False) # singles,
             Inl APIError)"
       "map fst singles = map (\<lambda>b. [b]) (slices 100 ?bs ! 1)"
       "\<forall>j < length singles.
          snd (singles ! j)
            = rejects_second_call ([] @ map (\<lambda>b. (b, True)) (take 1 (slices 100 ?bs))
                  @ (slices 100 ?bs ! 1, False) # take j singles)
                [slices 100 ?bs ! 1 ! j]"
    by blast
  from s(2) have m: "map fst singles = replicate 100 [Divider]" by (simp add: sl)
  from s(3) have "\<forall>j < length singles. snd (singles ! j) = True"
    by (simp add: sl rejects_second_call_def)
  from all_true_replicate [OF m this] have "singles = replicate 100 ([Divider], True)" .
  with s(1) have three: "submit_blocks rejects_second_call [] ?bs
       = ([(replicate 100 Divider, True), (replicate 100 Divider, False)]
            @ replicate 100 ([Divider], True), Inl APIError)"
    by (simp add: sl)
  from one two [unfolded sl] three show ?thesis by simp
qed

section \<open>Code blocks and list items\<close>









lemma run_events_append:
  "run_events up cv (es @ es') =
     (case run_events up cv es of Inl e \<Rightarrow> Inl e | Inr cv' \<Rightarrow> run_events up cv' es')"
  by (induction es arbitrary: cv) (auto split: sum.splits)

lemma handle_keeps_list_type:
  "\<not> is_list_event e \<Longrightarrow> handle up cv e = Inr cv' \<Longrightarrow> current_list_type cv' = current_list_type cv"
  by (cases e)
     (auto simp: heading_def paragraph_event_def block_code_event_def block_quote_def
        list_item_def image_def thematic_break_def append_block_def Let_def
        split: if_splits sum.splits)

lemma run_events_keeps_list_type:
  "\<forall>e \<in> set es. \<not> is_list_event e \<Longrightarrow> run_events up cv es = Inr cv'
     \<Longrightarrow> current_list_type cv' = current_list_type cv"
proof (induction es arbitrary: cv)
  case Nil
  then show ?case by simp
next
  case (Cons e es)
  then show ?case
    by (auto split: sum.splits dest: handle_keeps_list_type)
qed

lemma prt_x: "parse_rich_text urlsplit ''x'' = Inr [plain_run ''x'']"
  by code_simp

text \<open>
  Claim C10. The list-type state is \<open>None\<close> at construction and stays so until a list
  event. A list-item event handled while it is \<open>None\<close> appends to the blocks built so
  far exactly one block, a bulleted list item holding the formatter's runs, and leaves
  the state \<open>None\<close>; after an ordered list event the item appended is a numbered one.
\<close>

theorem list_item_defaults_to_bulleted:
  "current_list_type init_converter = None
   \<and> (current_list_type cv = None \<and> parse_rich_text up text = Inr rt \<longrightarrow>
        (\<exists>cv'. handle up cv (EListItem text) = Inr cv'
           \<and> blocks cv' = blocks cv @ [ListItem bulleted_list_item rt]
           \<and> current_list_type cv' = None))
   \<and> ((\<forall>e \<in> set es. \<not> is_list_event e) \<and> run_events up init_converter es = Inr cv0
        \<and> parse_rich_text up text = Inr rt \<longrightarrow>
        (\<exists>cv'. run_events up init_converter (es @ [EListItem text]) = Inr cv'
           \<and> blocks cv' = blocks cv0 @ [ListItem bulleted_list_item rt]
           \<and> current_list_type cv' = None))
   \<and> (parse_rich_text up text = Inr rt \<longrightarrow>
        (\<exists>cv'. run_events up cv [EList True, EListItem text] = Inr cv'
           \<and> blocks cv' = blocks cv @ [ListItem numbered_list_item rt]))"
proof -
  have a: "current_list_type init_converter = None" by (simp add: init_converter_def)
  have b: "\<exists>cv'. handle up cv (EListItem text) = Inr cv'
           \<and> blocks cv' = blocks cv @ [ListItem bulleted_list_item rt]
           \<and> current_list_type cv' = None"
    if "current_list_type cv = None" "parse_rich_text up text = Inr rt" for cv
    using that by (simp add: list_item_def append_block_def)
  have c: "\<exists>cv'. run_events up init_converter (es @ [EListItem text]) = Inr cv'
           \<and> blocks cv' = blocks cv0 @ [ListItem bulleted_list_item rt]
           \<and> current_list_type cv' = None"
    if h: "\<forall>e \<in> set es. \<not> is_list_event e" "run_events up init_converter es = Inr cv0"
       "parse_rich_text up text = Inr rt"
  proof -
    have "current_list_type cv0 = None"
      using run_events_keeps_list_type [OF h(1) h(2)] a by simp
    from b [OF this h(3)] obtain cv' where
      "handle up cv0 (EListItem text) = Inr cv'"
      "blocks cv' = blocks cv0 @ [ListItem bulleted_list_item rt]" "current_list_type cv' = None"
      by blast
    then show ?thesis by (intro exI [of _ cv']) (simp add: run_events_append h(2))
  qed
  have d: "\<exists>cv'. run_events up cv [EList True, EListItem text] = Inr cv'
           \<and> blocks cv' = blocks cv @ [ListItem numbered_list_item rt]"
    if "parse_rich_text up text = Inr rt"
    using that by (simp add: list_event_def list_item_def append_block_def)
  from a b c d show ?thesis by blast
qed

theorem list_item_defaults_to_bulleted_witness:
  "run_events urlsplit init_converter ([EThematicBreak] @ [EListItem ''x''])
     = Inr \<lparr>blocks = [Divider, ListItem bulleted_list_item [plain_run ''x'']],
            current_list_type = None\<rparr>
   \<and> handle urlsplit init_converter (EListItem ''x'')
     = Inr \<lparr>blocks = [ListItem bulleted_list_item [plain_run ''x'']], current_list_type = None\<rparr>
   \<and> map_sum id blocks (run_events urlsplit init_converter [EList True, EListItem ''x''])
     = Inr [ListItem numbered_list_item [plain_run ''x'']]"
proof -
  have h1: "\<forall>e \<in> set [EThematicBreak]. \<not> is_list_event e" by simp
  have h2: "run_events urlsplit init_converter [EThematicBreak]
      = Inr \<lparr>blocks = [Divider], current_list_type = None\<rparr>"
    by (simp add: thematic_break_def append_block_def init_converter_def)
  have n: "current_list_type init_converter = None" by (simp add: init_converter_def)
  note t = list_item_defaults_to_bulleted [of init_converter urlsplit "''x''" "[plain_run ''x'']"
      "[EThematicBreak]" "\<lparr>blocks = [Divider], current_list_type = None\<rparr>"]
  from t h1 h2 prt_x obtain cv1 where
    c1: "run_events urlsplit init_converter ([EThematicBreak] @ [EListItem ''x'']) = Inr cv1"
        "blocks cv1 = blocks \<lparr>blocks = [Divider], current_list_type = None\<rparr>
            @ [ListItem bulleted_list_item [plain_run ''x'']]"
        "current_list_type cv1 = None"
    by blast
  from c1(2) c1(3) have e1: "cv1 = \<lparr>blocks = [Divider, ListItem bulleted_list_item [plain_run ''x'']],
            current_list_type = None\<rparr>"
    by simp
  from t n prt_x obtain cv2 where
    c2: "handle urlsplit init_converter (EListItem ''x'') = Inr cv2"
        "blocks cv2 = blocks init_converter @ [ListItem bulleted_list_item [plain_run ''x'']]"
        "current_list_type cv2 = None"
    by blast
  from c2(2) c2(3) have e2: "cv2 = \<lparr>blocks = [ListItem bulleted_list_item [plain_run ''x'']],
            current_list_type = None\<rparr>"
    by (simp add: init_converter_def)
  from t prt_x obtain cv3 where
    c3: "run_events urlsplit init_converter [EList True, EListItem ''x''] = Inr cv3"
        "blocks cv3 = blocks init_converter @ [ListItem numbered_list_item [plain_run ''x'']]"
    by blast
  from c3 have e3: "map_sum id blocks (run_events urlsplit init_converter [EList True, EListItem ''x''])
     = Inr [ListItem numbered_list_item [plain_run ''x'']]"
    by (simp add: init_converter_def)
  from c1(1) e1 c2(1) e2 e3 show ?thesis by simp
qed

section \<open>Run contents are bounded\<close>


lemma short_runs_simps [simp]:
  "short_runs []" "short_runs (r # rt) = (length (content r) \<le> 2000 \<and> short_runs rt)"
  "short_runs (rt @ rt') = (short_runs rt \<and> short_runs rt')"
  by (auto simp: short_runs_def)

lemma short_plain_piece [simp]: "short_runs (plain_piece s)"
  by (simp add: plain_piece_def plain_run_def)

lemma short_span_run: "span_run up lm t = Inr run \<Longrightarrow> short_runs run"
  by (auto simp: span_run_def plain_run_def link_run_def annotated_run_def
           split: if_splits option.splits)

lemma short_span_loop: "span_loop up lm ms = Inr runs \<Longrightarrow> short_runs runs"
proof (induction ms arbitrary: runs)
  case Nil
  then show ?case by simp
next
  case (Cons gm ms)
  obtain gap m where gm: "gm = (gap, m)" by (cases gm)
  from Cons.prems obtain run rest where
    "span_run up lm (whole m) = Inr run" "span_loop up lm ms = Inr rest"
    "runs = plain_piece gap @ run @ rest"
    by (auto simp: gm split: sum.splits)
  then show ?case using Cons.IH short_span_run by simp
qed

lemma short_part_runs: "part_runs up lm part = Inr runs \<Longrightarrow> short_runs runs"
  by (auto simp: part_runs_def annotated_run_def Let_def
           split: if_splits prod.splits sum.splits dest: short_span_loop)

lemma short_parts_loop: "parts_loop up lm parts = Inr runs \<Longrightarrow> short_runs runs"
proof (induction parts arbitrary: runs)
  case Nil
  then show ?case by simp
next
  case (Cons part parts)
  from Cons.prems obtain r1 r2 where
    "part_runs up lm part = Inr r1" "parts_loop up lm parts = Inr r2" "runs = r1 @ r2"
    by (auto split: sum.splits)
  then show ?case using Cons.IH short_part_runs by simp
qed

lemma short_parse_rich_text: "parse_rich_text up t = Inr rt \<Longrightarrow> short_runs rt"
  by (auto simp: parse_rich_text_def plain_run_def
           split: prod.splits sum.splits if_splits dest: short_parts_loop)


lemma short_block_code: "short_blocks (block_code c info)"
proof -
  have "short_runs (block_runs b)" if "b \<in> set (block_code c info)" for b
  proof -
    from that obtain chunk where "chunk \<in> set (slices 2000 c)"
      "b = Code [plain_run chunk] (map_language (info_language info))"
      by (auto simp: block_code_def Let_def)
    then show ?thesis using slices_bound [of 2000 chunk c] by (simp add: plain_run_def)
  qed
  then show ?thesis by (simp add: short_blocks_def)
qed

lemma short_handle:
  assumes "handle up cv e = Inr cv'" "short_blocks (blocks cv)"
  shows "short_blocks (blocks cv')"
proof (cases e)
  case (EHeading t l)
  with assms show ?thesis
    by (auto simp: heading_def append_block_def short_blocks_def plain_run_def Let_def
             split: if_splits)
next
  case (EParagraph t)
  show ?thesis
  proof (cases "py_strip t = []")
    case True
    with assms EParagraph show ?thesis by (simp add: paragraph_event_def)
  next
    case False
    with assms EParagraph obtain rt where rt: "parse_rich_text up t = Inr rt"
      "cv' = append_block cv (Paragraph rt)"
      by (auto simp: paragraph_event_def split: sum.splits)
    from short_parse_rich_text [OF rt(1)] assms(2) show ?thesis
      by (simp add: rt(2) append_block_def short_blocks_def)
  qed
next
  case (EBlockCode c info)
  with assms short_block_code [of c info] show ?thesis
    by (auto simp: block_code_event_def short_blocks_def)
next
  case (EBlockQuote t)
  with assms show ?thesis
    by (auto simp: block_quote_def append_block_def short_blocks_def plain_run_def)
next
  case (EList ordered)
  with assms show ?thesis by (auto simp: list_event_def)
next
  case (EListItem t)
  with assms obtain rt lt where rt: "parse_rich_text up t = Inr rt"
    "cv' = append_block cv (ListItem lt rt)"
    by (auto simp: list_item_def Let_def split: sum.splits)
  from short_parse_rich_text [OF rt(1)] assms(2) show ?thesis
    by (simp add: rt(2) append_block_def short_blocks_def)
next
  case (EImage t u)
  with assms show ?thesis
    by (auto simp: image_def append_block_def short_blocks_def plain_run_def split: if_splits)
next
  case EThematicBreak
  with assms show ?thesis
    by (auto simp: thematic_break_def append_block_def short_blocks_def)
qed

lemma short_run_events:
  "run_events up cv es = Inr cv' \<Longrightarrow> short_blocks (blocks cv) \<Longrightarrow> short_blocks (blocks cv')"
proof (induction es arbitrary: cv)
  case Nil
  then show ?case by simp
next
  case (Cons e es)
  then show ?case by (auto split: sum.splits dest: short_handle)
qed

text \<open>
  Claim C9. Every run the formatter returns, and every run of every block the builder
  has appended after any sequence of events (heading, paragraph, quote and list-item
  text, code chunks, image captions), has a content of at most 2000 characters.
\<close>

theorem run_content_at_most_2000:
  "(parse_rich_text up t = Inr rt \<longrightarrow> (\<forall>r \<in> set rt. length (content r) \<le> 2000))
   \<and> (run_events up init_converter es = Inr cv \<longrightarrow>
        (\<forall>b \<in> set (blocks cv). \<forall>r \<in> set (block_runs b). length (content r) \<le> 2000))"
proof -
  have "short_blocks (blocks init_converter)"
    by (simp add: init_converter_def short_blocks_def)
  then show ?thesis
    using short_parse_rich_text [of up t rt] short_run_events [of up init_converter es cv]
    by (auto simp: short_blocks_def short_runs_def)
qed

lemma demo_run: "run_events urlsplit init_converter [EHeading (replicate 2500 (CHR ''a'')) 1, EParagraph ''*b*'']
      = Inr \<lparr>blocks = [Heading 1 [plain_run (replicate 2000 (CHR ''a''))],
                        Paragraph [annotated_run ''b'' italic]],
              current_list_type = None\<rparr>"
proof -
  have p: "parse_rich_text urlsplit ''*b*'' = Inr [annotated_run ''b'' italic]" by code_simp
  have s: "py_strip ''*b*'' \<noteq> []" by code_simp
  show ?thesis
    by (simp add: heading_def paragraph_event_def p s append_block_def init_converter_def)
qed

theorem run_content_at_most_2000_witness:
  "parse_rich_text urlsplit ''*b*'' = Inr [annotated_run ''b'' italic]
   \<and> list_all (\<lambda>r. length (content r) \<le> 2000) [annotated_run ''b'' italic]
   \<and> run_events urlsplit init_converter
         [EHeading (replicate 2500 (CHR ''a'')) 1, EParagraph ''*b*'']
       = Inr \<lparr>blocks = [Heading 1 [plain_run (replicate 2000 (CHR ''a''))],
                          Paragraph [annotated_run ''b'' italic]],
                current_list_type = None\<rparr>
   \<and> list_all (\<lambda>b. list_all (\<lambda>r. length (content r) \<le> 2000) (block_runs b))
         [Heading 1 [plain_run (replicate 2000 (CHR ''a''))], Paragraph [annotated_run ''b'' italic]]"
proof -
  have p: "parse_rich_text urlsplit ''*b*'' = Inr [annotated_run ''b'' italic]" by code_simp
  from run_content_at_most_2000 [of urlsplit "''*b*''" "[annotated_run ''b'' italic]"
        "[EHeading (replicate 2500 (CHR ''a'')) 1, EParagraph ''*b*'']"
        "\<lparr>blocks = [Heading 1 [plain_run (replicate 2000 (CHR ''a''))],
                        Paragraph [annotated_run ''b'' italic]],
              current_list_type = None\<rparr>"] p demo_run
  show ?thesis by (simp add: list_all_iff)
qed

section \<open>Inline content of text blocks\<close>

lemma prt_bold: "parse_rich_text up ''**b**'' = Inr [annotated_run ''b'' bold]"
  by code_simp

text \<open>
  Claim C3 (the code at the failing input). For the line \<open># **b**\<close> the markdown parser
  hands the heading handler the text \<open>**b**\<close>, the strong handler having written the
  markup back for the formatter. The heading block holds this text as one plain run,
  asterisks included; the paragraph and the list item built from the same text hold the
  formatter's bold run \<open>b\<close>.
\<close>

theorem heading_markup_not_parsed:
  "handle up init_converter (EHeading ''**b**'' 1)
     = Inr \<lparr>blocks = [Heading 1 [plain_run ''**b**'']], current_list_type = None\<rparr>
   \<and> handle up init_converter (EParagraph ''**b**'')
     = Inr \<lparr>blocks = [Paragraph [annotated_run ''b'' bold]], current_list_type = None\<rparr>
   \<and> handle up init_converter (EListItem ''**b**'')
     = Inr \<lparr>blocks = [ListItem bulleted_list_item [annotated_run ''b'' bold]],
            current_list_type = None\<rparr>
   \<and> plain_run ''**b**'' \<noteq> annotated_run ''b'' bold"
proof -
  have s: "py_strip ''**b**'' \<noteq> []" by code_simp
  show ?thesis
    by (simp add: heading_def paragraph_event_def list_item_def prt_bold s append_block_def
          init_converter_def plain_run_def annotated_run_def)
qed

text \<open>The heading handler on any text: one plain run of its first 2000 characters.\<close>

lemma heading_text_is_one_plain_run:
  "1 \<le> level \<Longrightarrow>
     handle up cv (EHeading text level)
       = Inr (cv\<lparr>blocks := blocks cv @ [Heading (nat (min level 3)) [plain_run (take 2000 text)]]\<rparr>)"
  by (auto simp: heading_def Let_def min_def append_block_def)

text \<open>
  Claim C4 (the code at the failing inputs). A link that stands inside emphasis is
  replaced by its placeholder, the emphasis pattern then takes the placeholder as part
  of its text, and the link's display text and target are lost: the result is an
  annotated run holding the placeholder, for every \<open>urlparse\<close>.
\<close>

theorem link_inside_emphasis_leaves_placeholder:
  "parse_rich_text up ''*[a](b) c*'' = Inr [annotated_run ''__LINK_0__ c'' italic]
   \<and> parse_rich_text up ''**[notes](notes.pdf)**'' = Inr [annotated_run ''__LINK_0__'' bold]"
  by code_simp

text \<open>The example of claim C4: markup inside a target that stands alone is not parsed.\<close>

lemma link_with_markup_in_target:
  "parse_rich_text urlsplit ''[a](http://x/*y*)'' = Inr [link_run ''a'' ''http://x/*y*'']"
  by code_simp

section \<open>Path resolution\<close>






section \<open>Attachment uploads\<close>








section \<open>Properties of the matcher\<close>

lemma lits_Cons: "lits (c # s) = Cat (One (Lit c)) (lits s)"
  by (simp add: lits_def)

lemma lits_Nil: "lits [] = Eps"
  by (simp add: lits_def)

lemma matches_lits:
  "matches (lits s) (rb, rest, caps) =
     (if take (length s) rest = s then [(rev s @ rb, drop (length s) rest, caps)] else [])"
proof (induction s arbitrary: rb rest)
  case Nil
  show ?case by (simp add: lits_Nil)
next
  case (Cons c s)
  show ?case
  proof (cases rest)
    case Nil
    then show ?thesis by (simp add: lits_Cons)
  next
    case (Cons y ys)
    then show ?thesis using Cons.IH [of "y # rb" ys] by (auto simp: lits_Cons)
  qed
qed

lemma matches_lits_app: "matches (lits s) (rb, s @ rest, caps) = [(rev s @ rb, rest, caps)]"
  by (simp add: matches_lits)

lemma greedy_runs_shape:
  assumes "\<forall>y \<in> set x. cmatch c y" "rest = [] \<or> \<not> cmatch c (hd rest)"
  shows "\<exists>others. greedy_runs c caps rb (x @ rest) = (rev x @ rb, rest, caps) # others
           \<and> (\<forall>st \<in> set others. \<exists>u v. v \<noteq> [] \<and> x = u @ v \<and> st = (rev u @ rb, v @ rest, caps))"
  using assms(1)
proof (induction x arbitrary: rb)
  case Nil
  show ?case
  proof (cases rest)
    case Nil
    then show ?thesis by simp
  next
    case (Cons y ys)
    with assms(2) show ?thesis by simp
  qed
next
  case (Cons a x)
  from Cons.prems have ax: "cmatch c a" "\<forall>y \<in> set x. cmatch c y" by simp_all
  from Cons.IH [OF ax(2), of "a # rb"] obtain others where
    o: "greedy_runs c caps (a # rb) (x @ rest) = (rev x @ a # rb, rest, caps) # others"
       "\<forall>st \<in> set others. \<exists>u v. v \<noteq> [] \<and> x = u @ v \<and> st = (rev u @ a # rb, v @ rest, caps)"
    by blast
  have "greedy_runs c caps rb ((a # x) @ rest)
      = (rev (a # x) @ rb, rest, caps) # (others @ [(rb, (a # x) @ rest, caps)])"
    using ax(1) o(1) by simp
  moreover have "\<forall>st \<in> set (others @ [(rb, (a # x) @ rest, caps)]).
      \<exists>u v. v \<noteq> [] \<and> a # x = u @ v \<and> st = (rev u @ rb, v @ rest, caps)"
  proof
    fix st assume "st \<in> set (others @ [(rb, (a # x) @ rest, caps)])"
    then consider "st \<in> set others" | "st = (rb, (a # x) @ rest, caps)" by auto
    then show "\<exists>u v. v \<noteq> [] \<and> a # x = u @ v \<and> st = (rev u @ rb, v @ rest, caps)"
    proof cases
      case 1
      with o(2) obtain u v where "v \<noteq> []" "x = u @ v" "st = (rev u @ a # rb, v @ rest, caps)"
        by blast
      then show ?thesis by (intro exI [of _ "a # u"] exI [of _ v]) simp
    next
      case 2
      then show ?thesis by (intro exI [of _ "[]"] exI [of _ "a # x"]) simp
    qed
  qed
  ultimately show ?case by blast
qed


lemma concat_map_first:
  assumes "\<forall>st \<in> set others. f st = []"
  shows "concat (map f (s0 # others)) = f s0"
  using assms by (induction others) simp_all

lemma plus_then:
  assumes x: "x \<noteq> []" "\<forall>y \<in> set x. cmatch c y" and rest: "rest = [] \<or> \<not> cmatch c (hd rest)"
    and R: "needs_stop c R"
  shows "matches (Cat (Plus c) R) (rb, x @ rest, caps) = matches R (rev x @ rb, rest, caps)"
proof -
  from x obtain a x' where ax: "x = a # x'" by (cases x) auto
  with x have c: "cmatch c a" "\<forall>y \<in> set x'. cmatch c y" by simp_all
  from greedy_runs_shape [OF c(2) rest, of caps "a # rb"] obtain others where
    o: "greedy_runs c caps (a # rb) (x' @ rest) = (rev x' @ a # rb, rest, caps) # others"
       "\<forall>st \<in> set others. \<exists>u v. v \<noteq> [] \<and> x' = u @ v \<and> st = (rev u @ a # rb, v @ rest, caps)"
    by blast
  have "\<forall>st \<in> set others. matches R st = []"
  proof
    fix st assume "st \<in> set others"
    with o(2) obtain u v where uv: "v \<noteq> []" "x' = u @ v" "st = (rev u @ a # rb, v @ rest, caps)"
      by blast
    then obtain y v' where "v = y # v'" by (cases v) auto
    with uv c(2) R show "matches R st = []" by (simp add: needs_stop_def)
  qed
  from concat_map_first [OF this] show ?thesis
    by (simp add: ax c(1) o(1))
qed

lemma group_plus_then:
  assumes x: "x \<noteq> []" "\<forall>y \<in> set x. cmatch c y" and rest: "rest = [] \<or> \<not> cmatch c (hd rest)"
    and R: "needs_stop c R"
  shows "matches (Cat (Group n (Plus c)) R) (rb, x @ rest, caps)
           = matches R (rev x @ rb, rest, (n, x) # caps)"
proof -
  from x obtain a x' where ax: "x = a # x'" by (cases x) auto
  with x have c: "cmatch c a" "\<forall>y \<in> set x'. cmatch c y" by simp_all
  from greedy_runs_shape [OF c(2) rest, of caps "a # rb"] obtain others where
    o: "greedy_runs c caps (a # rb) (x' @ rest) = (rev x' @ a # rb, rest, caps) # others"
       "\<forall>st \<in> set others. \<exists>u v. v \<noteq> [] \<and> x' = u @ v \<and> st = (rev u @ a # rb, v @ rest, caps)"
    by blast
  have "\<forall>st \<in> set (map (capture n rb) others). matches R st = []"
  proof
    fix st assume "st \<in> set (map (capture n rb) others)"
    then obtain st0 where st0: "st0 \<in> set others" "st = capture n rb st0" by auto
    with o(2) obtain u v where uv: "v \<noteq> []" "x' = u @ v" "st0 = (rev u @ a # rb, v @ rest, caps)"
      by blast
    then obtain y v' where "v = y # v'" by (cases v) auto
    with uv c(2) R st0(2) show "matches R st = []" by (simp add: needs_stop_def capture_def)
  qed
  from concat_map_first [OF this]
  have "concat (map (matches R) (map (capture n rb) (greedy_runs c caps (a # rb) (x' @ rest))))
      = matches R (capture n rb (rev x' @ a # rb, rest, caps))"
    by (simp add: o(1))
  moreover have "capture n rb (rev x' @ a # rb, rest, caps) = (rev x @ rb, rest, (n, x) # caps)"
    by (simp add: capture_def ax)
  ultimately show ?thesis by (simp add: ax c(1))
qed

lemma needs_stop_lits:
  "\<not> cmatch c d \<Longrightarrow> needs_stop c (Cat (lits (d # s)) R)"
  by (auto simp: needs_stop_def matches_lits)

lemma bracket_run:
  assumes "x \<noteq> []" "CHR '']'' \<notin> set x"
  shows "matches (Cat (Group n (Plus (NoneOf '']''))) (Cat (lits '']]'') Eps)) (rb, x @ '']]'' @ post, caps)
           = [(rev '']]'' @ rev x @ rb, post, (n, x) # caps)]"
proof -
  have ns: "needs_stop (NoneOf '']'') (Cat (lits '']]'') Eps)"
    by (rule needs_stop_lits) simp
  have cl: "\<forall>y \<in> set x. cmatch (NoneOf '']'') y" using assms(2) by auto
  have st: "'']]'' @ post = [] \<or> \<not> cmatch (NoneOf '']'') (hd ('']]'' @ post))" by simp
  have "matches (Cat (Group n (Plus (NoneOf '']''))) (Cat (lits '']]'') Eps)) (rb, x @ '']]'' @ post, caps)
      = matches (Cat (lits '']]'') Eps) (rev x @ rb, '']]'' @ post, (n, x) # caps)"
    by (rule group_plus_then [OF assms(1) cl st ns])
  also have "\<dots> = [(rev '']]'' @ rev x @ rb, post, (n, x) # caps)]"
    by (simp only: matches.simps matches_lits_app) simp
  finally show ?thesis .
qed

lemma match_at_first:
  assumes "matches r (rb, m @ post, []) = (rev m @ rb, post, caps) # others"
  shows "match_at r rb (m @ post) = Some (\<lparr>whole = m, groups = caps\<rparr>, rev m @ rb, post)"
  using assms by (simp add: match_at_def)

lemma match_embed:
  assumes "x \<noteq> []" "CHR '']'' \<notin> set x"
  shows "match_at embed_re rb (''![['' @ x @ '']]'' @ post)
     = Some (\<lparr>whole = ''![['' @ x @ '']]'', groups = [(1, x)]\<rparr>,
             rev (''![['' @ x @ '']]'') @ rb, post)"
proof -
  have "matches embed_re (rb, ''![['' @ (x @ '']]'' @ post), [])
      = matches (Cat (Group 1 (Plus (NoneOf '']''))) (Cat (lits '']]'') Eps))
          (rev ''![['' @ rb, x @ '']]'' @ post, [])"
    unfolding embed_re_def seq.simps by (simp only: matches.simps matches_lits_app) simp
  also have "\<dots> = [(rev '']]'' @ rev x @ rev ''![['' @ rb, post, [(1, x)])]"
    by (rule bracket_run [OF assms])
  also have "rev '']]'' @ rev x @ rev ''![['' @ rb = rev (''![['' @ x @ '']]'') @ rb" by simp
  finally have "matches embed_re (rb, (''![['' @ x @ '']]'') @ post, [])
      = [(rev (''![['' @ x @ '']]'') @ rb, post, [(1, x)])]"
    by (simp only: append_assoc)
  from match_at_first [OF this] show ?thesis by (simp only: append_assoc)
qed

lemma match_wiki:
  assumes "x \<noteq> []" "CHR '']'' \<notin> set x"
  shows "match_at wiki_re rb (''[['' @ x @ '']]'' @ post)
     = Some (\<lparr>whole = ''[['' @ x @ '']]'', groups = [(1, x)]\<rparr>,
             rev (''[['' @ x @ '']]'') @ rb, post)"
proof -
  have "matches wiki_re (rb, ''[['' @ (x @ '']]'' @ post), [])
      = matches (Cat (Group 1 (Plus (NoneOf '']''))) (Cat (lits '']]'') Eps))
          (rev ''[['' @ rb, x @ '']]'' @ post, [])"
    unfolding wiki_re_def seq.simps by (simp only: matches.simps matches_lits_app) simp
  also have "\<dots> = [(rev '']]'' @ rev x @ rev ''[['' @ rb, post, [(1, x)])]"
    by (rule bracket_run [OF assms])
  also have "rev '']]'' @ rev x @ rev ''[['' @ rb = rev (''[['' @ x @ '']]'') @ rb" by simp
  finally have "matches wiki_re (rb, (''[['' @ x @ '']]'') @ post, [])
      = [(rev (''[['' @ x @ '']]'') @ rb, post, [(1, x)])]"
    by (simp only: append_assoc)
  from match_at_first [OF this] show ?thesis by (simp only: append_assoc)
qed

lemma finditer_none:
  assumes "\<And>u v rb'. rest = u @ v \<Longrightarrow> v \<noteq> [] \<Longrightarrow> match_at r rb' v = None"
  shows "finditer r rb gap rest = ([], rev gap @ rest)"
  using assms
proof (induction rest arbitrary: rb gap)
  case Nil
  show ?case by simp
next
  case (Cons x xs)
  have here: "match_at r rb (x # xs) = None" using Cons.prems [of "[]" "x # xs" rb] by simp
  have "finditer r (x # rb) (x # gap) xs = ([], rev (x # gap) @ xs)"
  proof (rule Cons.IH)
    fix u v rb' assume "xs = u @ v" "v \<noteq> []"
    then show "match_at r rb' v = None" using Cons.prems [of "x # u" v rb'] by simp
  qed
  with here show ?case by simp
qed

lemma finditer_skip:
  assumes "\<And>u v rb'. s = u @ v \<Longrightarrow> v \<noteq> [] \<Longrightarrow> match_at r rb' (v @ t) = None"
  shows "finditer r rb gap (s @ t) = finditer r (rev s @ rb) (rev s @ gap) t"
  using assms
proof (induction s arbitrary: rb gap)
  case Nil
  show ?case by simp
next
  case (Cons x xs)
  have here: "match_at r rb (x # xs @ t) = None" using Cons.prems [of "[]" "x # xs" rb] by simp
  have "finditer r (x # rb) (x # gap) (xs @ t) = finditer r (rev xs @ x # rb) (rev xs @ x # gap) t"
  proof (rule Cons.IH)
    fix u v rb' assume "xs = u @ v" "v \<noteq> []"
    then show "match_at r rb' (v @ t) = None" using Cons.prems [of "x # u" v rb'] by simp
  qed
  with here show ?case by simp
qed

lemma finditer_hit:
  assumes "match_at r rb (m @ t) = Some (M, rb', t)" "m \<noteq> []"
  shows "finditer r rb gap (m @ t) = (case finditer r rb' [] t of (ms, final) \<Rightarrow> ((rev gap, M) # ms, final))"
proof -
  from assms(2) obtain x xs where m: "m = x # xs" by (cases m) auto
  with assms(1) show ?thesis by simp
qed


lemma scan_none:
  assumes "\<And>u v rb'. s = u @ v \<Longrightarrow> v \<noteq> [] \<Longrightarrow> match_at r rb' v = None"
  shows "scan r s = ([], s)"
  unfolding scan_def using finditer_none [of s r "[]" "[]"] assms by simp

lemma no_embed:
  assumes "take 3 v \<noteq> ''![[''"
  shows "match_at embed_re rb v = None"
proof -
  have "matches (lits ''![['') (rb, v, []) = []"
    using assms by (simp add: matches_lits numeral_3_eq_3)
  then show ?thesis by (simp add: embed_re_def match_at_def)
qed

lemma no_wiki:
  assumes "take 2 v \<noteq> ''[[''"
  shows "match_at wiki_re rb v = None"
proof -
  have "matches (lits ''[['') (rb, v, []) = []"
    using assms by (simp add: matches_lits numeral_2_eq_2)
  then show ?thesis by (simp add: wiki_re_def match_at_def)
qed

lemma has_open2_suffix: "has_open2 v \<Longrightarrow> has_open2 (u @ v)"
proof (induction u)
  case Nil
  then show ?case by simp
next
  case (Cons a u)
  then show ?case by (cases "u @ v") auto
qed

lemma take2_open: "take 2 v = ''[['' \<Longrightarrow> has_open2 v"
  by (cases v rule: has_open2.cases) auto

lemma take3_bang: "take 3 v = ''![['' \<Longrightarrow> has_open2 v"
proof -
  assume "take 3 v = ''![[''"
  then obtain t where "v = CHR ''!'' # CHR ''['' # CHR ''['' # t"
    by (cases v; cases "tl v"; cases "tl (tl v)") auto
  then show ?thesis by simp
qed

lemma has_open2_append:
  "has_open2 (a @ b) \<longleftrightarrow>
     has_open2 a \<or> has_open2 b \<or> (a \<noteq> [] \<and> b \<noteq> [] \<and> last a = CHR ''['' \<and> hd b = CHR ''['')"
proof (induction a rule: has_open2.induct)
  case (3 x y s)
  then show ?case by auto
next
  case 1
  show ?case by simp
next
  case (2 x)
  show ?case by (cases b) auto
qed

lemma quiet_embed:
  assumes "\<not> has_open2 s"
  shows "scan embed_re s = ([], s)"
proof (rule scan_none)
  fix u v rb' assume "s = u @ v" "v \<noteq> []"
  with assms have "\<not> has_open2 v" using has_open2_suffix by blast
  then have "take 3 v \<noteq> ''![[''" using take3_bang by blast
  then show "match_at embed_re rb' v = None" by (rule no_embed)
qed

lemma quiet_wiki:
  assumes "\<not> has_open2 s"
  shows "scan wiki_re s = ([], s)"
proof (rule scan_none)
  fix u v rb' assume "s = u @ v" "v \<noteq> []"
  with assms have "\<not> has_open2 v" using has_open2_suffix by blast
  then have "take 2 v \<noteq> ''[[''" using take2_open by blast
  then show "match_at wiki_re rb' v = None" by (rule no_wiki)
qed

lemma convert_quiet: "\<not> has_open2 s \<Longrightarrow> convert_obsidian_links s pm = s"
  by (simp add: convert_obsidian_links_def re_sub_def quiet_embed quiet_wiki)

section \<open>Substitution from left to right\<close>

lemma shift_simp [simp]: "shift rb (rb', rest, caps) = (rb' @ rb, rest, caps)"
  by (simp add: shift_def)

lemma greedy_runs_shift:
  "greedy_runs c caps (rb0 @ rb) rest = map (shift rb) (greedy_runs c caps rb0 rest)"
proof (induction rest arbitrary: rb0)
  case Nil
  show ?case by simp
next
  case (Cons x xs)
  show ?case using Cons.IH [of "x # rb0"] by simp
qed

lemma lazy_runs_shift:
  "lazy_runs c caps (rb0 @ rb) rest = map (shift rb) (lazy_runs c caps rb0 rest)"
proof (induction rest arbitrary: rb0)
  case Nil
  show ?case by simp
next
  case (Cons x xs)
  show ?case using Cons.IH [of "x # rb0"] by simp
qed

lemma step_char_shift:
  "step_char c (shift rb st) = map (shift rb) (step_char c st)"
proof -
  obtain rb0 rest caps where st: "st = (rb0, rest, caps)" by (cases st)
  show ?thesis by (cases rest) (simp_all add: st)
qed

lemma capture_shift: "capture n (rb0 @ rb) (shift rb st) = shift rb (capture n rb0 st)"
proof -
  obtain rb' rest caps where st: "st = (rb', rest, caps)" by (cases st)
  show ?thesis by (simp add: st capture_def)
qed

lemma matches_shift:
  "no_lookbehind r \<Longrightarrow> matches r (shift rb st) = map (shift rb) (matches r st)"
proof (induction r arbitrary: st)
  case Eps
  show ?case by simp
next
  case (One c)
  show ?case by (simp add: step_char_shift)
next
  case (Cat a b)
  then have a: "\<And>st. matches a (shift rb st) = map (shift rb) (matches a st)"
    and b: "\<And>st. matches b (shift rb st) = map (shift rb) (matches b st)" by simp_all
  show ?case by (simp add: a b map_concat comp_def)
next
  case (Alt a b)
  then show ?case by simp
next
  case (Plus c)
  obtain rb0 rest caps where st: "st = (rb0, rest, caps)" by (cases st)
  show ?case by (cases rest) (simp_all add: st greedy_runs_shift [of c caps "_ # rb0", simplified])
next
  case (Star c)
  obtain rb0 rest caps where st: "st = (rb0, rest, caps)" by (cases st)
  show ?case by (simp add: st greedy_runs_shift)
next
  case (LazyPlus c)
  obtain rb0 rest caps where st: "st = (rb0, rest, caps)" by (cases st)
  show ?case by (cases rest) (simp_all add: st lazy_runs_shift [of c caps "_ # rb0", simplified])
next
  case (Group n r)
  then have r: "\<And>st. matches r (shift rb st) = map (shift rb) (matches r st)" by simp
  obtain rb0 rest caps where st: "st = (rb0, rest, caps)" by (cases st)
  have "map (capture n (rb0 @ rb)) (map (shift rb) (matches r st))
      = map (shift rb) (map (capture n rb0) (matches r st))"
    by (simp add: capture_shift)
  then show ?case using r [of st] by (simp add: st)
next
  case (NotBehind a)
  then show ?case by simp
next
  case (Ahead r)
  then show ?case by simp
next
  case Eos
  obtain rb0 rest caps where st: "st = (rb0, rest, caps)" by (cases st)
  show ?case by (simp add: st)
qed

lemma match_at_shift:
  assumes "no_lookbehind r"
  shows "match_at r rb rest =
     map_option (\<lambda>(m, rb', rest'). (m, rb' @ rb, rest')) (match_at r [] rest)"
proof -
  have "matches r (rb, rest, []) = map (shift rb) (matches r ([], rest, []))"
    using matches_shift [OF assms, of rb "([], rest, [])"] by simp
  then show ?thesis
    by (cases "matches r ([], rest, [])") (auto simp: match_at_def)
qed

lemma finditer_rb:
  assumes "no_lookbehind r"
  shows "finditer r rb gap rest = finditer r rb2 gap rest"
proof (induction "length rest" arbitrary: rest rb rb2 gap rule: less_induct)
  case less
  show ?case
  proof (cases rest)
    case Nil
    then show ?thesis by simp
  next
    case (Cons x xs)
    have xs: "finditer r (x # rb) (x # gap) xs = finditer r (x # rb2) (x # gap) xs"
      using less [of xs] Cons by simp
    show ?thesis
    proof (cases "match_at r [] (x # xs)")
      case None
      then show ?thesis using xs
        by (simp add: Cons match_at_shift [OF assms, of rb] match_at_shift [OF assms, of rb2])
    next
      case (Some res)
      obtain m rb' rest' where res: "res = (m, rb', rest')" by (cases res)
      have m1: "match_at r rb (x # xs) = Some (m, rb' @ rb, rest')"
        and m2: "match_at r rb2 (x # xs) = Some (m, rb' @ rb2, rest')"
        by (simp_all add: match_at_shift [OF assms, of rb] match_at_shift [OF assms, of rb2] Some res)
      show ?thesis
      proof (cases "length rest' < length (x # xs)")
        case True
        then have "finditer r (rb' @ rb) [] rest' = finditer r (rb' @ rb2) [] rest'"
          using less [of rest'] Cons by simp
        with True show ?thesis by (simp add: Cons m1 m2)
      next
        case False
        with xs show ?thesis by (simp add: Cons m1 m2)
      qed
    qed
  qed
qed

lemma sub_from_gap: "sub_from r f rb gap rest = rev gap @ sub_from r f rb [] rest"
proof (induction rest arbitrary: rb gap)
  case Nil
  show ?case by (simp add: sub_from_def)
next
  case (Cons x xs)
  have step: "sub_from r f (x # rb) (x # g) xs = rev g @ [x] @ sub_from r f (x # rb) [] xs" for g
    using Cons [of "x # rb" "x # g"] by simp
  show ?case
  proof (cases "match_at r rb (x # xs)")
    case None
    then have "sub_from r f rb gap (x # xs) = sub_from r f (x # rb) (x # gap) xs"
      and "sub_from r f rb [] (x # xs) = sub_from r f (x # rb) [x] xs"
      by (simp_all add: sub_from_def)
    then show ?thesis using step [of gap] step [of "[]"] by simp
  next
    case (Some res)
    obtain m rb' rest' where res: "res = (m, rb', rest')" by (cases res)
    show ?thesis
    proof (cases "length rest' < length (x # xs)")
      case True
      then show ?thesis by (simp add: sub_from_def Some res split: prod.splits)
    next
      case False
      then have "sub_from r f rb gap (x # xs) = sub_from r f (x # rb) (x # gap) xs"
        and "sub_from r f rb [] (x # xs) = sub_from r f (x # rb) [x] xs"
        by (simp_all add: sub_from_def Some res)
      then show ?thesis using step [of gap] step [of "[]"] by simp
    qed
  qed
qed

lemma re_sub_sub_from: "re_sub r f s = sub_from r f [] [] s"
  by (simp add: re_sub_def sub_from_def scan_def)

lemma sub_from_rb: "no_lookbehind r \<Longrightarrow> sub_from r f rb gap rest = sub_from r f [] gap rest"
  unfolding sub_from_def using finditer_rb [of r rb gap rest "[]"] by simp

lemma re_sub_skip:
  assumes "no_lookbehind r"
    and "\<And>u v rb'. s = u @ v \<Longrightarrow> v \<noteq> [] \<Longrightarrow> match_at r rb' (v @ t) = None"
  shows "re_sub r f (s @ t) = s @ re_sub r f t"
proof -
  have "finditer r [] [] (s @ t) = finditer r (rev s @ []) (rev s @ []) t"
    by (rule finditer_skip) (rule assms(2))
  then have "sub_from r f [] [] (s @ t) = sub_from r f (rev s) (rev s) t"
    by (simp add: sub_from_def)
  also have "\<dots> = s @ sub_from r f (rev s) [] t"
    using sub_from_gap [of r f "rev s" "rev s" t] by simp
  also have "sub_from r f (rev s) [] t = sub_from r f [] [] t"
    by (rule sub_from_rb [OF assms(1)])
  finally show ?thesis by (simp only: re_sub_sub_from)
qed

lemma re_sub_hit:
  assumes "no_lookbehind r" "match_at r [] (m @ t) = Some (M, rev m @ [], t)" "m \<noteq> []"
  shows "re_sub r f (m @ t) = f M @ re_sub r f t"
proof -
  have "finditer r [] [] (m @ t)
      = (case finditer r (rev m @ []) [] t of (ms, final) \<Rightarrow> ((rev [], M) # ms, final))"
    by (rule finditer_hit [OF assms(2) assms(3)])
  then have "sub_from r f [] [] (m @ t) = f M @ sub_from r f (rev m) [] t"
    by (simp add: sub_from_def split: prod.splits)
  also have "sub_from r f (rev m) [] t = sub_from r f [] [] t"
    by (rule sub_from_rb [OF assms(1)])
  finally show ?thesis by (simp only: re_sub_sub_from)
qed

lemma no_lookbehind_embed: "no_lookbehind embed_re"
  by (simp add: embed_re_def lits_def)

lemma no_lookbehind_wiki: "no_lookbehind wiki_re"
  by (simp add: wiki_re_def lits_def)

section \<open>Link normalization\<close>

lemma has_open2_Cons:
  "has_open2 (a # s) \<longleftrightarrow> (s \<noteq> [] \<and> a = CHR ''['' \<and> hd s = CHR ''['') \<or> has_open2 s"
  by (cases s) auto

lemma suffix_open2: "\<not> has_open2 s \<Longrightarrow> s = u @ v \<Longrightarrow> \<not> has_open2 v"
  using has_open2_suffix by blast

lemma no_bang_after_open:
  assumes "\<not> has_open2 r" "CHR ''['' # CHR ''['' # r = u @ v"
  shows "take 3 v \<noteq> ''![[''"
proof (cases u)
  case Nil
  with assms(2) show ?thesis by (auto simp: numeral_3_eq_3)
next
  case (Cons a u')
  show ?thesis
  proof (cases u')
    case Nil
    with Cons assms(2) show ?thesis by (auto simp: numeral_3_eq_3)
  next
    case (Cons b u'')
    with \<open>u = a # u'\<close> assms(2) have "r = u'' @ v" by simp
    with assms(1) have "\<not> has_open2 v" by (rule suffix_open2)
    then show ?thesis using take3_bang by blast
  qed
qed

lemma replace_no_pipe:
  "CHR ''|'' \<notin> set a \<Longrightarrow>
     replace_wiki_link pm \<lparr>whole = w, groups = [(1, a)]\<rparr>
       = (case pm a of Some url \<Rightarrow> ''['' @ a @ '']('' @ url @ '')'' | None \<Rightarrow> a)"
  by (simp add: replace_wiki_link_def group_def)

lemma replace_pipe:
  assumes "CHR ''|'' \<notin> set a"
  shows "replace_wiki_link pm \<lparr>whole = w, groups = [(1, a @ ''|'' @ b)]\<rparr>
       = (case pm a of Some url \<Rightarrow> ''['' @ b @ '']('' @ url @ '')'' | None \<Rightarrow> b)"
proof -
  have a: "\<And>x. x \<in> set a \<Longrightarrow> x \<noteq> CHR ''|''" using assms by auto
  have t: "takeWhile (\<lambda>c. c \<noteq> CHR ''|'') (a @ ''|'' @ b) = a"
    using takeWhile_append2 [of a "\<lambda>c. c \<noteq> CHR ''|''" "''|'' @ b"] a by simp
  have d: "dropWhile (\<lambda>c. c \<noteq> CHR ''|'') (a @ ''|'' @ b) = ''|'' @ b"
    using dropWhile_append2 [of a "\<lambda>c. c \<noteq> CHR ''|''" "''|'' @ b"] a by simp
  have "split_pipe (a @ ''|'' @ b) = (a, b)"
    unfolding split_pipe_def t d by simp
  then show ?thesis by (simp add: replace_wiki_link_def group_def)
qed

lemma wiki_skip:
  assumes "\<not> has_open2 s" "s = [] \<or> last s \<noteq> CHR ''['' \<or> t = [] \<or> hd t \<noteq> CHR ''[''"
  shows "re_sub wiki_re f (s @ t) = s @ re_sub wiki_re f t"
proof (rule re_sub_skip [OF no_lookbehind_wiki])
  fix u v rb' assume uv: "s = u @ v" "v \<noteq> []"
  have nv: "\<not> has_open2 v" by (rule suffix_open2 [OF assms(1) uv(1)])
  from uv have l: "last v = last s" "s \<noteq> []" by simp_all
  have "take 2 (v @ t) \<noteq> ''[[''"
  proof (cases v rule: has_open2.cases)
    case 1
    with uv(2) show ?thesis by simp
  next
    case (2 a)
    with l assms(2) show ?thesis by (cases t) (auto simp: numeral_2_eq_2)
  next
    case (3 a b r)
    with nv show ?thesis by (auto simp: numeral_2_eq_2)
  qed
  then show "match_at wiki_re rb' (v @ t) = None" by (rule no_wiki)
qed

lemma embed_skip:
  assumes "\<not> has_open2 s"
    "s = [] \<or> (last s \<noteq> CHR ''['' \<and> last s \<noteq> CHR ''!'') \<or> t = [] \<or> hd t \<noteq> CHR ''[''"
  shows "re_sub embed_re f (s @ t) = s @ re_sub embed_re f t"
proof (rule re_sub_skip [OF no_lookbehind_embed])
  fix u v rb' assume uv: "s = u @ v" "v \<noteq> []"
  have nv: "\<not> has_open2 v" by (rule suffix_open2 [OF assms(1) uv(1)])
  from uv have l: "last v = last s" "s \<noteq> []" by simp_all
  have "take 3 (v @ t) \<noteq> ''![[''"
  proof (cases v rule: has_open2.cases)
    case 1
    with uv(2) show ?thesis by simp
  next
    case (2 a)
    with l assms(2) show ?thesis by (cases t) (auto simp: numeral_3_eq_3)
  next
    case (3 a b r)
    show ?thesis
    proof (cases r)
      case Nil
      with 3 l assms(2) show ?thesis by (cases t) (auto simp: numeral_3_eq_3)
    next
      case (Cons c r')
      with 3 nv show ?thesis by (auto simp: numeral_3_eq_3)
    qed
  qed
  then show "match_at embed_re rb' (v @ t) = None" by (rule no_embed)
qed

lemma take3_closed:
  assumes "v \<noteq> []" "last v = CHR '']''" "take 3 (v @ t) = ''![[''"
  shows "take 3 v = ''![[''"
proof (cases v rule: has_open2.cases)
  case 1
  with assms(1) show ?thesis by simp
next
  case (2 a)
  with assms show ?thesis by (auto simp: numeral_3_eq_3)
next
  case (3 a b r)
  show ?thesis
  proof (cases r)
    case Nil
    with 3 assms show ?thesis by (cases t) (auto simp: numeral_3_eq_3)
  next
    case (Cons c r')
    with 3 assms show ?thesis by (auto simp: numeral_3_eq_3)
  qed
qed

lemma embed_skip_wiki_link:
  assumes "\<not> has_open2 c"
  shows "re_sub embed_re f ((''[['' @ c @ '']]'') @ t) = (''[['' @ c @ '']]'') @ re_sub embed_re f t"
proof (rule re_sub_skip [OF no_lookbehind_embed])
  fix u v rb' assume uv: "''[['' @ c @ '']]'' = u @ v" "v \<noteq> []"
  have nr: "\<not> has_open2 (c @ '']]'')" using assms by (auto simp: has_open2_append has_open2_Cons)
  have e: "CHR ''['' # CHR ''['' # (c @ '']]'') = u @ v" using uv(1) by simp
  have n3: "take 3 v \<noteq> ''![[''" by (rule no_bang_after_open [OF nr e])
  have "last (u @ v) = CHR '']''" using uv(1) [symmetric] by simp
  then have "last v = CHR '']''" using uv(2) by simp
  then have "take 3 (v @ t) \<noteq> ''![[''" using take3_closed [OF uv(2)] n3 by blast
  then show "match_at embed_re rb' (v @ t) = None" by (rule no_embed)
qed

lemma embed_pass_embed:
  assumes "x \<noteq> []" "CHR '']'' \<notin> set x" "\<not> has_open2 pre"
  shows "re_sub embed_re (\<lambda>m. ''![]('' @ group m 1 @ '')'') (pre @ (''![['' @ x @ '']]'') @ post)
     = pre @ (''![]('' @ x @ '')'') @ re_sub embed_re (\<lambda>m. ''![]('' @ group m 1 @ '')'') post"
proof -
  let ?f = "\<lambda>m. ''![]('' @ group m 1 @ '')''"
  have "re_sub embed_re ?f (pre @ (''![['' @ x @ '']]'') @ post)
      = pre @ re_sub embed_re ?f ((''![['' @ x @ '']]'') @ post)"
    by (rule embed_skip [OF assms(3)]) simp
  also have "re_sub embed_re ?f ((''![['' @ x @ '']]'') @ post)
      = ?f \<lparr>whole = ''![['' @ x @ '']]'', groups = [(1, x)]\<rparr> @ re_sub embed_re ?f post"
  proof (rule re_sub_hit [OF no_lookbehind_embed])
    show "match_at embed_re [] ((''![['' @ x @ '']]'') @ post)
        = Some (\<lparr>whole = ''![['' @ x @ '']]'', groups = [(1, x)]\<rparr>, rev (''![['' @ x @ '']]'') @ [], post)"
      using match_embed [OF assms(1) assms(2), of "[]" post] by (simp only: append_assoc)
    show "''![['' @ x @ '']]'' \<noteq> []" by simp
  qed
  finally show ?thesis by (simp add: group_def)
qed

lemma wiki_pass_wiki:
  assumes "c \<noteq> []" "CHR '']'' \<notin> set c" "\<not> has_open2 pre" "pre = [] \<or> last pre \<noteq> CHR ''[''"
  shows "re_sub wiki_re f (pre @ (''[['' @ c @ '']]'') @ post)
     = pre @ f \<lparr>whole = ''[['' @ c @ '']]'', groups = [(1, c)]\<rparr> @ re_sub wiki_re f post"
proof -
  have "re_sub wiki_re f (pre @ (''[['' @ c @ '']]'') @ post)
      = pre @ re_sub wiki_re f ((''[['' @ c @ '']]'') @ post)"
    by (rule wiki_skip [OF assms(3)]) (use assms(4) in blast)
  also have "re_sub wiki_re f ((''[['' @ c @ '']]'') @ post)
      = f \<lparr>whole = ''[['' @ c @ '']]'', groups = [(1, c)]\<rparr> @ re_sub wiki_re f post"
  proof (rule re_sub_hit [OF no_lookbehind_wiki])
    show "match_at wiki_re [] ((''[['' @ c @ '']]'') @ post)
        = Some (\<lparr>whole = ''[['' @ c @ '']]'', groups = [(1, c)]\<rparr>, rev (''[['' @ c @ '']]'') @ [], post)"
      using match_wiki [OF assms(1) assms(2), of "[]" post] by (simp only: append_assoc)
    show "''[['' @ c @ '']]'' \<noteq> []" by simp
  qed
  finally show ?thesis .
qed

lemma convert_embed_step:
  assumes x: "x \<noteq> []" "CHR '']'' \<notin> set x" "\<not> has_open2 x" and pre: "\<not> has_open2 pre"
  shows "convert_obsidian_links (pre @ ''![['' @ x @ '']]'' @ post) pm
           = pre @ ''![]('' @ x @ '')'' @ convert_obsidian_links post pm"
proof -
  let ?f = "\<lambda>m. ''![]('' @ group m 1 @ '')''"
  let ?s = "pre @ ''![]('' @ x @ '')''"
  have s1: "re_sub embed_re ?f (pre @ (''![['' @ x @ '']]'') @ post)
      = ?s @ re_sub embed_re ?f post"
    using embed_pass_embed [OF x(1) x(2) pre, of post] by simp
  have ns: "\<not> has_open2 ?s"
    using x(1) x(3) pre by (auto simp: has_open2_append has_open2_Cons)
  have s2: "re_sub wiki_re (replace_wiki_link pm) (?s @ re_sub embed_re ?f post)
      = ?s @ re_sub wiki_re (replace_wiki_link pm) (re_sub embed_re ?f post)"
    by (rule wiki_skip [OF ns]) simp
  have "convert_obsidian_links (pre @ (''![['' @ x @ '']]'') @ post) pm
      = ?s @ convert_obsidian_links post pm"
    unfolding convert_obsidian_links_def Let_def s1 s2 ..
  then show ?thesis by simp
qed

lemma convert_wiki_step:
  assumes c: "c \<noteq> []" "CHR '']'' \<notin> set c" "\<not> has_open2 c"
    and pre: "\<not> has_open2 pre" "pre = [] \<or> (last pre \<noteq> CHR ''['' \<and> last pre \<noteq> CHR ''!'')"
  shows "convert_obsidian_links (pre @ ''[['' @ c @ '']]'' @ post) pm
     = pre @ replace_wiki_link pm \<lparr>whole = ''[['' @ c @ '']]'', groups = [(1, c)]\<rparr>
         @ convert_obsidian_links post pm"
proof -
  let ?f = "\<lambda>m. ''![]('' @ group m 1 @ '')''"
  have p2: "pre = [] \<or> last pre \<noteq> CHR ''[''" using pre(2) by blast
  have "re_sub embed_re ?f (pre @ (''[['' @ c @ '']]'') @ post)
      = pre @ re_sub embed_re ?f ((''[['' @ c @ '']]'') @ post)"
    by (rule embed_skip [OF pre(1)]) (use pre(2) in blast)
  also have "re_sub embed_re ?f ((''[['' @ c @ '']]'') @ post)
      = (''[['' @ c @ '']]'') @ re_sub embed_re ?f post"
    by (rule embed_skip_wiki_link [OF c(3)])
  finally have s1: "re_sub embed_re ?f (pre @ (''[['' @ c @ '']]'') @ post)
      = pre @ (''[['' @ c @ '']]'') @ re_sub embed_re ?f post" .
  note s2 = wiki_pass_wiki [OF c(1) c(2) pre(1) p2, of "replace_wiki_link pm" "re_sub embed_re ?f post"]
  have "convert_obsidian_links (pre @ (''[['' @ c @ '']]'') @ post) pm
     = pre @ replace_wiki_link pm \<lparr>whole = ''[['' @ c @ '']]'', groups = [(1, c)]\<rparr>
         @ convert_obsidian_links post pm"
    unfolding convert_obsidian_links_def Let_def s1 s2 ..
  then show ?thesis by simp
qed

text \<open>
  References that stand apart. Where the text before a reference holds no double
  opening bracket, and whatever text follows it: an embed \<open>![[x]]\<close> becomes \<open>![](x)\<close> (the embed rewrite
  runs first, so the embed is not taken for a wiki-link); a wiki-link \<open>[[A]]\<close> or
  \<open>[[A|B]]\<close> that does not follow \<open>!\<close> or \<open>[\<close> becomes \<open>[B](U)\<close> when the page map
  sends \<open>A\<close> to \<open>U\<close> (with \<open>B = A\<close> when there is no pipe) and the bare display text
  otherwise; in both cases the text after the reference is normalized in the same way,
  so that every reference of a text is rewritten in turn. A text without double opening
  brackets, ordinary \<open>[text](url)\<close> links included, is returned unchanged.
\<close>

theorem normalize_embeds_and_wiki_links:
  "(x \<noteq> [] \<and> CHR '']'' \<notin> set x \<and> \<not> has_open2 x \<and> \<not> has_open2 pre \<longrightarrow>
      convert_obsidian_links (pre @ ''![['' @ x @ '']]'' @ post) pm
        = pre @ ''![]('' @ x @ '')'' @ convert_obsidian_links post pm)
   \<and> (a \<noteq> [] \<and> CHR '']'' \<notin> set a \<and> CHR ''|'' \<notin> set a \<and> \<not> has_open2 a
       \<and> \<not> has_open2 pre \<and> (pre = [] \<or> (last pre \<noteq> CHR ''['' \<and> last pre \<noteq> CHR ''!'')) \<longrightarrow>
      convert_obsidian_links (pre @ ''[['' @ a @ '']]'' @ post) pm
        = pre @ (case pm a of Some u \<Rightarrow> ''['' @ a @ '']('' @ u @ '')'' | None \<Rightarrow> a)
            @ convert_obsidian_links post pm)
   \<and> (CHR '']'' \<notin> set a \<and> CHR ''|'' \<notin> set a \<and> \<not> has_open2 a
       \<and> CHR '']'' \<notin> set b \<and> \<not> has_open2 b
       \<and> \<not> has_open2 pre \<and> (pre = [] \<or> (last pre \<noteq> CHR ''['' \<and> last pre \<noteq> CHR ''!'')) \<longrightarrow>
      convert_obsidian_links (pre @ ''[['' @ a @ ''|'' @ b @ '']]'' @ post) pm
        = pre @ (case pm a of Some u \<Rightarrow> ''['' @ b @ '']('' @ u @ '')'' | None \<Rightarrow> b)
            @ convert_obsidian_links post pm)
   \<and> (\<not> has_open2 s \<longrightarrow> convert_obsidian_links s pm = s)"
proof -
  have e: "convert_obsidian_links (pre @ ''![['' @ x @ '']]'' @ post) pm
        = pre @ ''![]('' @ x @ '')'' @ convert_obsidian_links post pm"
    if "x \<noteq> []" "CHR '']'' \<notin> set x" "\<not> has_open2 x" "\<not> has_open2 pre"
    using convert_embed_step [OF that] .
  have w1: "convert_obsidian_links (pre @ ''[['' @ a @ '']]'' @ post) pm
        = pre @ (case pm a of Some u \<Rightarrow> ''['' @ a @ '']('' @ u @ '')'' | None \<Rightarrow> a)
            @ convert_obsidian_links post pm"
    if h: "a \<noteq> []" "CHR '']'' \<notin> set a" "CHR ''|'' \<notin> set a" "\<not> has_open2 a"
      "\<not> has_open2 pre" "pre = [] \<or> (last pre \<noteq> CHR ''['' \<and> last pre \<noteq> CHR ''!'')"
    using convert_wiki_step [OF h(1) h(2) h(4) h(5) h(6), of post pm] replace_no_pipe [OF h(3), of pm]
    by simp
  have w2: "convert_obsidian_links (pre @ ''[['' @ a @ ''|'' @ b @ '']]'' @ post) pm
        = pre @ (case pm a of Some u \<Rightarrow> ''['' @ b @ '']('' @ u @ '')'' | None \<Rightarrow> b)
            @ convert_obsidian_links post pm"
    if h: "CHR '']'' \<notin> set a" "CHR ''|'' \<notin> set a" "\<not> has_open2 a"
      "CHR '']'' \<notin> set b" "\<not> has_open2 b"
      "\<not> has_open2 pre" "pre = [] \<or> (last pre \<noteq> CHR ''['' \<and> last pre \<noteq> CHR ''!'')"
  proof -
    have c1: "a @ ''|'' @ b \<noteq> []" by simp
    have c2: "CHR '']'' \<notin> set (a @ ''|'' @ b)" using h(1) h(4) by simp
    have c3: "\<not> has_open2 (a @ ''|'' @ b)"
      using h(3) h(5) by (auto simp: has_open2_append has_open2_Cons)
    from convert_wiki_step [OF c1 c2 c3 h(6) h(7), of post pm] replace_pipe [OF h(2), of pm]
    show ?thesis by simp
  qed
  from e w1 w2 convert_quiet [of s pm] show ?thesis by blast
qed

theorem normalize_embeds_and_wiki_links_witness:
  "convert_obsidian_links
     (''see '' @ ''![['' @ ''p.png'' @ '']]'' @
        ('' and '' @ ''[['' @ ''A'' @ ''|'' @ ''B'' @ '']]'' @
           ('' or '' @ ''[['' @ ''Z'' @ '']]'' @ '' [t](u)'')))
     [''A'' \<mapsto> ''https://n/a'']
   = ''see ![](p.png) and [B](https://n/a) or Z [t](u)''"
proof -
  note t = normalize_embeds_and_wiki_links
  let ?pm = "[''A'' \<mapsto> ''https://n/a'']"
  have q: "convert_obsidian_links '' [t](u)'' ?pm = '' [t](u)''"
    using t [where s = "'' [t](u)''" and pm = ?pm] by simp
  have z: "convert_obsidian_links ('' or '' @ ''[['' @ ''Z'' @ '']]'' @ '' [t](u)'') ?pm
      = '' or '' @ ''Z'' @ convert_obsidian_links '' [t](u)'' ?pm"
    using t [where a = "''Z''" and pre = "'' or ''" and post = "'' [t](u)''" and pm = ?pm]
    by simp
  have ab: "convert_obsidian_links
      ('' and '' @ ''[['' @ ''A'' @ ''|'' @ ''B'' @ '']]'' @ ('' or '' @ ''[['' @ ''Z'' @ '']]'' @ '' [t](u)'')) ?pm
      = '' and '' @ (''['' @ ''B'' @ '']('' @ ''https://n/a'' @ '')'')
          @ convert_obsidian_links ('' or '' @ ''[['' @ ''Z'' @ '']]'' @ '' [t](u)'') ?pm"
    using t [where a = "''A''" and b = "''B''" and pre = "'' and ''"
               and post = "'' or '' @ ''[['' @ ''Z'' @ '']]'' @ '' [t](u)''" and pm = ?pm]
    by simp
  have p: "convert_obsidian_links
     (''see '' @ ''![['' @ ''p.png'' @ '']]'' @
        ('' and '' @ ''[['' @ ''A'' @ ''|'' @ ''B'' @ '']]'' @
           ('' or '' @ ''[['' @ ''Z'' @ '']]'' @ '' [t](u)''))) ?pm
      = ''see '' @ ''![]('' @ ''p.png'' @ '')'' @ convert_obsidian_links
          ('' and '' @ ''[['' @ ''A'' @ ''|'' @ ''B'' @ '']]'' @
           ('' or '' @ ''[['' @ ''Z'' @ '']]'' @ '' [t](u)'')) ?pm"
    using t [where x = "''p.png''" and pre = "''see ''"
               and post = "'' and '' @ ''[['' @ ''A'' @ ''|'' @ ''B'' @ '']]'' @
                            ('' or '' @ ''[['' @ ''Z'' @ '']]'' @ '' [t](u)'')" and pm = ?pm]
    by simp
  show ?thesis unfolding p ab z q by simp
qed


section \<open>Attachment rewrite\<close>
























text \<open>A whole document: one upload for two occurrences, the URL image untouched.\<close>

lemma rewrite_images_demo:
  "fst (rewrite_images demo_world ''/v/doc.md'' ''/v'' (Some init_uploader)
          ''![a](copy.png) ![b](copy.png) ![c](https://h/p.png)'')
     = ''![a](https://cdn/root/copy.png) ![b](https://cdn/root/copy.png) ![c](https://h/p.png)''
   \<and> map_option provider_calls
        (uploader (snd (rewrite_images demo_world ''/v/doc.md'' ''/v'' (Some init_uploader)
                          ''![a](copy.png) ![b](copy.png) ![c](https://h/p.png)'')))
     = Some [(''/v/copy.png'', ''root'')]"
  by code_simp


end
